theory Spec2Isabelle
  imports Complex_Main
begin

section \<open>Data model\<close>

text \<open>
  The program works on C++ \<open>double\<close>s. A finite \<open>double\<close> is the real number it
  stands for; NaN is left out. The search itself only compares the numbers it is given and
  copies them, except in the two operations \<open>mid()\<close> and \<open>width()\<close> of the class
  \<open>interval\<close>, whose results are rounded: those two are a parameter of the model (see
  \<open>interval_ops\<close> below). The only infinite value the search introduces is the initial
  bound \<open>numeric_limits<double>::infinity()\<close> of \<open>main\<close>, so the type of the bound
  \<open>min_ub\<close> adds \<open>+oo\<close> to the reals.
\<close>

datatype ext = Fin real | PInf

instantiation ext :: linorder
begin

fun less_eq_ext :: "ext \<Rightarrow> ext \<Rightarrow> bool" where
  "less_eq_ext (Fin a) (Fin b) = (a \<le> b)"
| "less_eq_ext _ PInf = True"
| "less_eq_ext PInf (Fin _) = False"

fun less_ext :: "ext \<Rightarrow> ext \<Rightarrow> bool" where
  "less_ext (Fin a) (Fin b) = (a < b)"
| "less_ext (Fin _) PInf = True"
| "less_ext PInf _ = False"

instance
proof
  fix a b c :: ext
  show "(a < b) = (a \<le> b \<and> \<not> b \<le> a)"
    by (cases a; cases b) auto
  show "a \<le> a"
    by (cases a) auto
  show "a \<le> b \<Longrightarrow> b \<le> c \<Longrightarrow> a \<le> c"
    by (cases a; cases b; cases c) auto
  show "a \<le> b \<Longrightarrow> b \<le> a \<Longrightarrow> a = b"
    by (cases a; cases b) auto
  show "a \<le> b \<or> b \<le> a"
    by (cases a; cases b) auto
qed

end

text \<open>
  Modelled from the spec: the class \<open>interval\<close> is not part of the source file. The spec
  gives it as a pair \<open>(lo, hi)\<close> with the operations \<open>left\<close>, \<open>right\<close>,
  \<open>mid = (lo + hi) / 2\<close> and \<open>width = hi - lo\<close>. The source stores what \<open>mid()\<close>
  and \<open>width()\<close> return in a \<open>double\<close> (line 11) or compares it with one (line 45),
  and how the class computes them is not in the source: they are taken as the parameter
  \<open>ops\<close> of everything that splits a box or tests its width.
\<close>

datatype interval = interval (left: real) (right: real)

datatype interval_ops = Ops (mid: "interval \<Rightarrow> real") (width: "interval \<Rightarrow> real")

text \<open>
  Modelled from the spec: the two operations by the spec's formulas, first without rounding
  and then with the result rounded to the nearest \<open>double\<close>, ties to the even
  significand, as IEEE 754 binary64 arithmetic in its default mode gives it (53 bits of
  significand, least exponent \<open>-1074\<close>; overflow is left out).
\<close>

definition exact :: interval_ops where
  "exact = Ops (\<lambda>i. (left i + right i) / 2) (\<lambda>i. right i - left i)"

definition round_even :: "real \<Rightarrow> int" where
  "round_even q =
     (let k = \<lfloor>q\<rfloor> in
      if q - of_int k < 1 / 2 then k
      else if 1 / 2 < q - of_int k then k + 1
      else if even k then k else k + 1)"

definition to_double :: "real \<Rightarrow> real" where
  "to_double r =
     (if r = 0 then 0
      else let e = max (\<lfloor>log 2 \<bar>r\<bar>\<rfloor> - 52) (- 1074)
           in of_int (round_even (r / 2 powr of_int e)) * 2 powr of_int e)"

definition binary64 :: interval_ops where
  "binary64 = Ops (\<lambda>i. to_double ((left i + right i) / 2)) (\<lambda>i. to_double (right i - left i))"

text \<open>
  Modelled from the spec: the struct \<open>minimizer\<close> and the container \<open>minimizer_list\<close>
  are declared outside the source file. \<open>minimizer{x, y, lb, ub}\<close> is a box with the
  endpoints of the objective's enclosure over it (the spec's \<open>flo\<close> and \<open>fhi\<close>); the
  selectors carry the prefix \<open>m_\<close>. The container is ordered by \<open>lb\<close>, ascending, and
  keeps entries with equal keys; it is a list here, kept sorted by the comparison
  \<open>less_minimizer\<close>.
\<close>

datatype minimizer =
  minimizer (m_x: interval) (m_y: interval) (m_lb: real) (m_ub: real)

type_synonym minimizer_list = "minimizer list"

definition less_minimizer :: "minimizer \<Rightarrow> minimizer \<Rightarrow> bool" where
  "less_minimizer a b = (m_lb a < m_lb b)"

text \<open>\<open>ml.insert(m)\<close>: the new entry goes behind the entries that are not greater.\<close>

fun insert_ml :: "minimizer \<Rightarrow> minimizer_list \<Rightarrow> minimizer_list" where
  "insert_ml m [] = [m]"
| "insert_ml m (e # es) =
     (if less_minimizer m e then m # e # es else e # insert_ml m es)"

text \<open>
  \<open>ml.lower_bound(probe)\<close>: the position of the first entry that is not less than the
  probe; \<open>ml.erase(pos, ml.end())\<close> drops everything from that position on.
\<close>

definition lower_bound :: "minimizer \<Rightarrow> minimizer_list \<Rightarrow> nat" where
  "lower_bound probe es = length (takeWhile (\<lambda>e. less_minimizer e probe) es)"

definition erase_to_end :: "nat \<Rightarrow> minimizer_list \<Rightarrow> minimizer_list" where
  "erase_to_end pos es = take pos es"

definition sorted_ml :: "minimizer_list \<Rightarrow> bool" where
  "sorted_ml es = sorted_wrt (\<lambda>a b. \<not> less_minimizer b a) es"

text \<open>
  The two reference parameters \<open>min_ub\<close> and \<open>ml\<close> of \<open>minimize\<close> are the state that
  a call reads and returns updated.
\<close>

record search_state =
  min_ub :: ext
  ml :: minimizer_list

type_synonym itvfun = "interval \<Rightarrow> interval \<Rightarrow> interval"

section \<open>The box splitter\<close>

text \<open>
  \<open>split_box\<close> writes its four output parameters \<open>xl\<close>, \<open>xr\<close>, \<open>yl\<close>, \<open>yr\<close>. The
  midpoints \<open>xm\<close> and \<open>ym\<close> are what \<open>mid()\<close> returns.
\<close>

definition split_box :: "interval_ops \<Rightarrow> interval \<Rightarrow> interval
    \<Rightarrow> interval \<times> interval \<times> interval \<times> interval" where
  "split_box ops x y =
     (let xm = mid ops x; ym = mid ops y
      in (interval (left x) xm, interval xm (right x),
          interval (left y) ym, interval ym (right y)))"

section \<open>The sequential search\<close>

text \<open>
  Lines 34 to 40 of \<open>minimize\<close>: a smaller right endpoint becomes the bound, and the
  entries from \<open>lower_bound(minimizer{0, 0, min_ub, 0})\<close> on are erased. The bound has
  just been set to \<open>fxy.right()\<close>, so that is the probe's \<open>lb\<close>.
\<close>

definition tighten :: "interval \<Rightarrow> search_state \<Rightarrow> search_state" where
  "tighten fxy s =
     (if Fin (right fxy) < min_ub s
      then let discard_begin =
             lower_bound (minimizer (interval 0 0) (interval 0 0) (right fxy) 0) (ml s)
           in \<lparr>min_ub = Fin (right fxy), ml = erase_to_end discard_begin (ml s)\<rparr>
      else s)"

text \<open>
  \<open>minimize\<close> with \<open>use_mpi = false\<close>, which is how every recursive call runs. The
  C++ recursion has no bound of its own, so the model takes a limit \<open>n\<close> on the nesting
  of recursive calls: the call itself always runs, each level of recursion uses one unit,
  and \<open>None\<close> says that a box had to be split with no unit left.
\<close>

fun minimize :: "interval_ops \<Rightarrow> nat \<Rightarrow> itvfun \<Rightarrow> interval \<Rightarrow> interval \<Rightarrow> real \<Rightarrow> search_state
    \<Rightarrow> search_state option" where
  "minimize ops n f x y threshold s =
     (let fxy = f x y in
      if min_ub s < Fin (left fxy) then Some s
      else
        let s1 = tighten fxy s in
        if width ops x \<le> threshold
        then Some (s1\<lparr>ml := insert_ml (minimizer x y (left fxy) (right fxy)) (ml s1)\<rparr>)
        else
          (case n of
             0 \<Rightarrow> None
           | Suc k \<Rightarrow>
               (case split_box ops x y of (xl, xr, yl, yr) \<Rightarrow>
                  Option.bind (minimize ops k f xl yl threshold s1) (\<lambda>s2.
                  Option.bind (minimize ops k f xl yr threshold s2) (\<lambda>s3.
                  Option.bind (minimize ops k f xr yl threshold s3) (\<lambda>s4.
                  minimize ops k f xr yr threshold s4))))))"

text \<open>
  The same run, reporting every moment right after a change of the state: the list holds,
  in order, the state after each tightening (lines 35 to 39) and after each insertion
  (line 47). The bound changes nowhere else, so the list also shows every value the bound
  takes after its first.
\<close>

fun minimize_trace :: "interval_ops \<Rightarrow> nat \<Rightarrow> itvfun \<Rightarrow> interval \<Rightarrow> interval \<Rightarrow> real \<Rightarrow> search_state
    \<Rightarrow> search_state list option" where
  "minimize_trace ops n f x y threshold s =
     (let fxy = f x y in
      if min_ub s < Fin (left fxy) then Some []
      else
        let s1 = tighten fxy s;
            tr = (if Fin (right fxy) < min_ub s then [s1] else []) in
        if width ops x \<le> threshold
        then Some (tr @ [s1\<lparr>ml := insert_ml (minimizer x y (left fxy) (right fxy)) (ml s1)\<rparr>])
        else
          (case n of
             0 \<Rightarrow> None
           | Suc k \<Rightarrow>
               (case split_box ops x y of (xl, xr, yl, yr) \<Rightarrow>
                  Option.bind (minimize_trace ops k f xl yl threshold s1) (\<lambda>t1.
                  Option.bind (minimize_trace ops k f xl yr threshold (last (s1 # t1))) (\<lambda>t2.
                  Option.bind (minimize_trace ops k f xr yl threshold (last (s1 # t1 @ t2))) (\<lambda>t3.
                  Option.bind (minimize_trace ops k f xr yr threshold (last (s1 # t1 @ t2 @ t3))) (\<lambda>t4.
                  Some (tr @ t1 @ t2 @ t3 @ t4))))))))"

text \<open>
  What the claims are stated with: the Candidate Set invariant in its strict and in its
  non-strict form, and the bounds of a list of states.
\<close>

definition below_bound :: "search_state \<Rightarrow> bool" where
  "below_bound s = list_all (\<lambda>m. Fin (m_lb m) < min_ub s) (ml s)"

definition within_bound :: "search_state \<Rightarrow> bool" where
  "within_bound s = list_all (\<lambda>m. Fin (m_lb m) \<le> min_ub s) (ml s)"

definition valid :: "interval \<Rightarrow> bool" where
  "valid i = (left i \<le> right i)"

definition valid_fun :: "itvfun \<Rightarrow> bool" where
  "valid_fun f = (\<forall>x y. valid x \<and> valid y \<longrightarrow> valid (f x y))"

definition non_increasing :: "ext list \<Rightarrow> bool" where
  "non_increasing us = sorted_wrt (\<lambda>a b. b \<le> a) us"

text \<open>
  What the halves of a box need of \<open>mid()\<close>: the midpoint of a valid interval lies
  between its endpoints.
\<close>

definition mid_inside :: "interval_ops \<Rightarrow> bool" where
  "mid_inside ops = (\<forall>i. valid i \<longrightarrow> left i \<le> mid ops i \<and> mid ops i \<le> right i)"

text \<open>
  What the comment of lines 43 and 44 takes for granted, that a box is always split
  equally: each half of an interval has half its width.
\<close>

definition halves_width :: "interval_ops \<Rightarrow> bool" where
  "halves_width ops =
     (\<forall>i. width ops (interval (left i) (mid ops i)) = width ops i / 2
        \<and> width ops (interval (mid ops i) (right i)) = width ops i / 2)"

text \<open>
  The spec's requirement on an objective: over a box inside another, its enclosure lies
  inside the enclosure over the outer box.
\<close>

definition sub_interval :: "interval \<Rightarrow> interval \<Rightarrow> bool" where
  "sub_interval i' i = (left i \<le> left i' \<and> right i' \<le> right i)"

definition inclusion_monotone :: "itvfun \<Rightarrow> bool" where
  "inclusion_monotone f =
     (\<forall>x y x' y'. valid x' \<and> valid y' \<and> sub_interval x' x \<and> sub_interval y' y \<longrightarrow>
        left (f x y) \<le> left (f x' y') \<and> right (f x' y') \<le> right (f x y))"

text \<open>
  The points of a box and of its interior, and the four boxes that the callers of
  \<open>split_box\<close> form from its outputs (lines 76 to 79 and 147 to 150, in that order).
\<close>

definition in_box :: "interval \<times> interval \<Rightarrow> real \<times> real \<Rightarrow> bool" where
  "in_box b p = (left (fst b) \<le> fst p \<and> fst p \<le> right (fst b)
     \<and> left (snd b) \<le> snd p \<and> snd p \<le> right (snd b))"

definition in_interior :: "interval \<times> interval \<Rightarrow> real \<times> real \<Rightarrow> bool" where
  "in_interior b p = (left (fst b) < fst p \<and> fst p < right (fst b)
     \<and> left (snd b) < snd p \<and> snd p < right (snd b))"

definition quadrants :: "interval_ops \<Rightarrow> interval \<Rightarrow> interval
    \<Rightarrow> (interval \<times> interval) list" where
  "quadrants ops x y =
     (case split_box ops x y of (xl, xr, yl, yr) \<Rightarrow> [(xl, yl), (xl, yr), (xr, yl), (xr, yr)])"

section \<open>The distributed run\<close>

text \<open>
  \<open>minimize\<close> with \<open>use_mpi = true\<close>, as one process of rank \<open>rank\<close> runs it. The call
  either returns before any communication (lines 31 and 48) or reaches \<open>MPI_Reduce\<close>
  (line 72) with its \<open>local_min_ub\<close>. \<open>local_ml\<close> is a reference to \<open>ml\<close>, so the
  entries of the recursive call land in \<open>ml\<close>, while \<open>min_ub\<close> keeps its value until
  the reduction writes it. The four tests of \<open>rank\<close> follow one another as in the source;
  a recursive call made under the limit \<open>n\<close> runs under the limit \<open>n - 1\<close>, and there
  is none to make when the limit is 0.
\<close>

datatype mpi_outcome =
  Returned search_state
  | AtReduce ext search_state

definition nested_call :: "interval_ops \<Rightarrow> nat \<Rightarrow> itvfun \<Rightarrow> interval \<Rightarrow> interval \<Rightarrow> real
    \<Rightarrow> search_state \<Rightarrow> search_state option" where
  "nested_call ops n f x y threshold s =
     (case n of 0 \<Rightarrow> None | Suc k \<Rightarrow> minimize ops k f x y threshold s)"

definition minimize_mpi :: "interval_ops \<Rightarrow> nat \<Rightarrow> nat \<Rightarrow> itvfun \<Rightarrow> interval \<Rightarrow> interval \<Rightarrow> real
    \<Rightarrow> search_state \<Rightarrow> mpi_outcome option" where
  "minimize_mpi ops n rank f x y threshold s =
     (let fxy = f x y in
      if min_ub s < Fin (left fxy) then Some (Returned s)
      else
        let s1 = tighten fxy s in
        if width ops x \<le> threshold
        then Some (Returned
               (s1\<lparr>ml := insert_ml (minimizer x y (left fxy) (right fxy)) (ml s1)\<rparr>))
        else
          (case split_box ops x y of (xl, xr, yl, yr) \<Rightarrow>
             Option.bind (if rank = 0 then nested_call ops n f xl yl threshold s1 else Some s1) (\<lambda>l1.
             Option.bind (if rank = 1 then nested_call ops n f xl yr threshold l1 else Some l1) (\<lambda>l2.
             Option.bind (if rank = 2 then nested_call ops n f xr yl threshold l2 else Some l2) (\<lambda>l3.
             Option.bind (if rank = 3 then nested_call ops n f xr yr threshold l3 else Some l3) (\<lambda>l4.
             Some (AtReduce (min_ub l4) (s1\<lparr>ml := ml l4\<rparr>))))))))"

text \<open>
  \<open>main\<close>, for the process of rank \<open>rank\<close>. Rank 0 splits the initial box into
  \<open>carre\<close> and calls \<open>minimize\<close> with \<open>use_mpi = true\<close> on \<open>p[rank]\<close>; the source
  declares no \<open>p\<close>, and \<open>carre\<close> is the only array of boxes it fills, so \<open>p\<close> is read
  as \<open>carre\<close>. The branch of the other ranks (lines 170 to 178) receives, sends its
  \<open>min_ub\<close> and calls nothing: its state stays the initial one.
\<close>

definition carre :: "interval_ops \<Rightarrow> interval \<Rightarrow> interval
    \<Rightarrow> (interval \<times> interval) list" where
  "carre ops x0 y0 =
     (case split_box ops x0 y0 of (xl, xr, yl, yr) \<Rightarrow> [(xl, yl), (xl, yr), (xr, yl), (xr, yr)])"

definition initial_state :: search_state where
  "initial_state = \<lparr>min_ub = PInf, ml = []\<rparr>"

definition main_rank :: "interval_ops \<Rightarrow> nat \<Rightarrow> nat \<Rightarrow> itvfun \<Rightarrow> interval \<Rightarrow> interval
    \<Rightarrow> real \<Rightarrow> mpi_outcome option" where
  "main_rank ops n rank f x0 y0 precision =
     (if rank = 0
      then minimize_mpi ops n rank f (fst (carre ops x0 y0 ! rank))
             (snd (carre ops x0 y0 ! rank)) precision initial_state
      else Some (Returned initial_state))"

text \<open>
  \<open>MPI_Reduce\<close> over \<open>MPI_COMM_WORLD\<close> is a collective operation: the call of the root
  completes only when every process of the communicator has made the call, and then leaves
  the minimum of their contributions in \<open>min_ub\<close>. A process that never reaches line 72
  contributes nothing, and the reduction never completes. The processes of rank 1, 2 and 3
  never reach it: their branch of \<open>main\<close> has no call of \<open>minimize\<close>, and it waits in
  \<open>MPI_Recv\<close> (line 173) for a message that rank 0, which sends none, never sends.
\<close>

fun contribution :: "mpi_outcome \<Rightarrow> ext option" where
  "contribution (AtReduce l s) = Some l"
| "contribution (Returned s) = None"

datatype reduction = Reduced ext | Never

definition MPI_Reduce_MIN :: "mpi_outcome list \<Rightarrow> reduction" where
  "MPI_Reduce_MIN rs =
     (case those (map contribution rs) of
        None \<Rightarrow> Never
      | Some ls \<Rightarrow> Reduced (fold min ls PInf))"

text \<open>The run of the four processes, and one sequential search of the whole box.\<close>

definition distributed_run :: "interval_ops \<Rightarrow> nat \<Rightarrow> itvfun \<Rightarrow> interval \<Rightarrow> interval \<Rightarrow> real
    \<Rightarrow> reduction option" where
  "distributed_run ops n f x0 y0 precision =
     Option.bind (main_rank ops n 0 f x0 y0 precision) (\<lambda>r0.
     Option.bind (main_rank ops n 1 f x0 y0 precision) (\<lambda>r1.
     Option.bind (main_rank ops n 2 f x0 y0 precision) (\<lambda>r2.
     Option.bind (main_rank ops n 3 f x0 y0 precision) (\<lambda>r3.
     Some (MPI_Reduce_MIN [r0, r1, r2, r3])))))"

definition sequential_ub :: "interval_ops \<Rightarrow> nat \<Rightarrow> itvfun \<Rightarrow> interval \<Rightarrow> interval \<Rightarrow> real
    \<Rightarrow> ext option" where
  "sequential_ub ops n f x0 y0 precision =
     map_option min_ub (minimize ops n f x0 y0 precision initial_state)"

text \<open>
  Modelled from the spec: the distributed run as the spec's protocol describes it, which
  the source does not contain. Each of the four workers runs the sequential search on its
  own quadrant of the first split, from the bound \<open>+oo\<close> and an empty Candidate Set, and
  the result is the minimum of the four bounds.
\<close>

definition distributed_ub_design :: "interval_ops \<Rightarrow> nat \<Rightarrow> itvfun \<Rightarrow> interval \<Rightarrow> interval
    \<Rightarrow> real \<Rightarrow> ext option" where
  "distributed_ub_design ops n f x0 y0 precision =
     (case split_box ops x0 y0 of (xl, xr, yl, yr) \<Rightarrow>
        Option.bind (minimize ops n f xl yl precision initial_state) (\<lambda>r0.
        Option.bind (minimize ops n f xl yr precision initial_state) (\<lambda>r1.
        Option.bind (minimize ops n f xr yl precision initial_state) (\<lambda>r2.
        Option.bind (minimize ops n f xr yr precision initial_state) (\<lambda>r3.
        Some (min (min (min_ub r0) (min_ub r1)) (min (min_ub r2) (min_ub r3))))))))"

section \<open>Objectives and states for the examples\<close>

text \<open>
  The registry of objectives is outside the source file. Four enclosures serve as concrete
  inputs: a constant, the exact range of \<open>- (x + y)\<close> over a box, the natural interval
  extension of \<open>x\<^sup>2 + y\<^sup>2\<close>, the objective of the spec's first scenario, and an
  enclosure of the constant 3 that is exact only on the boxes to the right of \<open>x = 1\<close>.
\<close>

definition const_fun :: "real \<Rightarrow> itvfun" where
  "const_fun c x y = interval c c"

definition neg_sum :: itvfun where
  "neg_sum x y = interval (- (right x + right y)) (- (left x + left y))"

definition sqr :: "interval \<Rightarrow> interval" where
  "sqr i =
     (if 0 \<le> left i then interval ((left i)\<^sup>2) ((right i)\<^sup>2)
      else if right i \<le> 0 then interval ((right i)\<^sup>2) ((left i)\<^sup>2)
      else interval 0 (max ((left i)\<^sup>2) ((right i)\<^sup>2)))"

definition sphere :: itvfun where
  "sphere x y = interval (left (sqr x) + left (sqr y)) (right (sqr x) + right (sqr y))"

definition loose_left :: itvfun where
  "loose_left x y = (if left x < 1 then interval 3 5 else interval 3 3)"

text \<open>A state with three Candidates in ascending order of \<open>lb\<close>.\<close>

definition ex_state :: search_state where
  "ex_state = \<lparr>min_ub = Fin 5,
     ml = [minimizer (interval 0 1) (interval 0 1) 0 5,
           minimizer (interval 1 2) (interval 0 1) 3 6,
           minimizer (interval 1 2) (interval 1 2) 4 7]\<rparr>"

section \<open>Unfolding one call\<close>

declare minimize.simps [simp del] minimize_trace.simps [simp del]

text \<open>
  One equation for each way a call can go: pruned, stopped at a narrow box, out of
  recursion levels, or split into its four recursive calls.
\<close>

lemma minimize_pruned:
  "min_ub s < Fin (left (f x y)) \<Longrightarrow> minimize ops n f x y threshold s = Some s"
  by (subst minimize.simps) (simp add: Let_def)

lemma minimize_trace_pruned:
  "min_ub s < Fin (left (f x y)) \<Longrightarrow> minimize_trace ops n f x y threshold s = Some []"
  by (subst minimize_trace.simps) (simp add: Let_def)

lemma minimize_leaf:
  "\<not> min_ub s < Fin (left (f x y)) \<Longrightarrow> width ops x \<le> threshold \<Longrightarrow>
   minimize ops n f x y threshold s =
     Some ((tighten (f x y) s)\<lparr>ml := insert_ml (minimizer x y (left (f x y)) (right (f x y)))
        (ml (tighten (f x y) s))\<rparr>)"
  by (subst minimize.simps) (simp add: Let_def)

lemma minimize_trace_leaf:
  "\<not> min_ub s < Fin (left (f x y)) \<Longrightarrow> width ops x \<le> threshold \<Longrightarrow>
   minimize_trace ops n f x y threshold s =
     Some ((if Fin (right (f x y)) < min_ub s then [tighten (f x y) s] else []) @
       [(tighten (f x y) s)\<lparr>ml := insert_ml (minimizer x y (left (f x y)) (right (f x y)))
        (ml (tighten (f x y) s))\<rparr>])"
  by (subst minimize_trace.simps) (simp add: Let_def)

lemma minimize_split_0:
  "\<not> min_ub s < Fin (left (f x y)) \<Longrightarrow> \<not> width ops x \<le> threshold \<Longrightarrow>
   minimize ops 0 f x y threshold s = None"
  by (subst minimize.simps) (simp add: Let_def)

lemma minimize_trace_split_0:
  "\<not> min_ub s < Fin (left (f x y)) \<Longrightarrow> \<not> width ops x \<le> threshold \<Longrightarrow>
   minimize_trace ops 0 f x y threshold s = None"
  by (subst minimize_trace.simps) (simp add: Let_def)

lemma minimize_split_Suc:
  "\<not> min_ub s < Fin (left (f x y)) \<Longrightarrow> \<not> width ops x \<le> threshold \<Longrightarrow>
   minimize ops (Suc k) f x y threshold s =
     Option.bind (minimize ops k f (interval (left x) (mid ops x)) (interval (left y) (mid ops y)) threshold (tighten (f x y) s)) (\<lambda>s2.
     Option.bind (minimize ops k f (interval (left x) (mid ops x)) (interval (mid ops y) (right y)) threshold s2) (\<lambda>s3.
     Option.bind (minimize ops k f (interval (mid ops x) (right x)) (interval (left y) (mid ops y)) threshold s3) (\<lambda>s4.
     minimize ops k f (interval (mid ops x) (right x)) (interval (mid ops y) (right y)) threshold s4)))"
  by (subst minimize.simps) (simp add: Let_def split_box_def)

lemma minimize_trace_split_Suc:
  "\<not> min_ub s < Fin (left (f x y)) \<Longrightarrow> \<not> width ops x \<le> threshold \<Longrightarrow>
   minimize_trace ops (Suc k) f x y threshold s =
     Option.bind (minimize_trace ops k f (interval (left x) (mid ops x)) (interval (left y) (mid ops y)) threshold (tighten (f x y) s)) (\<lambda>t1.
     Option.bind (minimize_trace ops k f (interval (left x) (mid ops x)) (interval (mid ops y) (right y)) threshold (last (tighten (f x y) s # t1))) (\<lambda>t2.
     Option.bind (minimize_trace ops k f (interval (mid ops x) (right x)) (interval (left y) (mid ops y)) threshold (last (tighten (f x y) s # t1 @ t2))) (\<lambda>t3.
     Option.bind (minimize_trace ops k f (interval (mid ops x) (right x)) (interval (mid ops y) (right y)) threshold (last (tighten (f x y) s # t1 @ t2 @ t3))) (\<lambda>t4.
     Some ((if Fin (right (f x y)) < min_ub s then [tighten (f x y) s] else []) @ t1 @ t2 @ t3 @ t4)))))"
  by (subst minimize_trace.simps) (simp add: Let_def split_box_def)

lemma minimize_split_cases:
  assumes "minimize ops (Suc k) f x y threshold s = Some s'"
    and "\<not> min_ub s < Fin (left (f x y))" and "\<not> width ops x \<le> threshold"
  obtains s2 s3 s4 where
    "minimize ops k f (interval (left x) (mid ops x)) (interval (left y) (mid ops y)) threshold
       (tighten (f x y) s) = Some s2"
    "minimize ops k f (interval (left x) (mid ops x)) (interval (mid ops y) (right y)) threshold s2 = Some s3"
    "minimize ops k f (interval (mid ops x) (right x)) (interval (left y) (mid ops y)) threshold s3 = Some s4"
    "minimize ops k f (interval (mid ops x) (right x)) (interval (mid ops y) (right y)) threshold s4 = Some s'"
  using assms(1)
  unfolding minimize_split_Suc [where f = f and x = x and y = y, OF assms(2,3)]
  by (auto simp: bind_eq_Some_conv)

text \<open>The tightening step by itself.\<close>

lemma tighten_same: "\<not> Fin (right fxy) < min_ub s \<Longrightarrow> tighten fxy s = s"
  by (simp add: tighten_def)

lemma tighten_ml:
  "Fin (right fxy) < min_ub s \<Longrightarrow>
   tighten fxy s = \<lparr>min_ub = Fin (right fxy), ml = takeWhile (\<lambda>e. m_lb e < right fxy) (ml s)\<rparr>"
  by (simp add: tighten_def lower_bound_def erase_to_end_def less_minimizer_def Let_def
      takeWhile_eq_take [symmetric])

lemma tighten_le: "min_ub (tighten fxy s) \<le> min_ub s"
  by (auto simp: tighten_def Let_def)

lemma tighten_min_ub: "min_ub (tighten fxy s) = min (Fin (right fxy)) (min_ub s)"
  by (auto simp: tighten_def Let_def min_def)

lemma tighten_below:
  "Fin (right fxy) < min_ub s \<Longrightarrow> below_bound (tighten fxy s)"
  by (auto simp: tighten_ml below_bound_def list_all_iff dest: set_takeWhileD)

lemma tighten_idem: "tighten fxy (tighten fxy s) = tighten fxy s"
  by (rule tighten_same) (simp add: tighten_min_ub)

lemma tighten_not_pruned:
  assumes "\<not> min_ub s < Fin (left fxy)" "valid fxy"
  shows "\<not> min_ub (tighten fxy s) < Fin (left fxy)"
  using assms by (auto simp: tighten_min_ub valid_def min_def)

text \<open>The ordered insertion and the order of the container.\<close>

lemma insert_ml_set: "set (insert_ml m es) = insert m (set es)"
  by (induction es) auto

lemma insert_ml_length: "length (insert_ml m es) = Suc (length es)"
  by (induction es) auto

lemma sorted_insert_ml: "sorted_ml es \<Longrightarrow> sorted_ml (insert_ml m es)"
  unfolding sorted_ml_def less_minimizer_def
  by (induction es) (auto simp: insert_ml_set less_minimizer_def)

lemma sorted_tighten: "sorted_ml (ml s) \<Longrightarrow> sorted_ml (ml (tighten fxy s))"
  by (simp add: tighten_def Let_def erase_to_end_def sorted_ml_def sorted_wrt_take)

lemma takeWhile_sorted_filter:
  "sorted_ml es \<Longrightarrow> takeWhile (\<lambda>e. m_lb e < r) es = filter (\<lambda>e. m_lb e < r) es"
  unfolding sorted_ml_def less_minimizer_def
proof (induction es)
  case Nil
  then show ?case by simp
next
  case (Cons e es)
  show ?case
  proof (cases "m_lb e < r")
    case True
    with Cons show ?thesis by simp
  next
    case False
    with Cons.prems have "\<forall>a\<in>set es. \<not> m_lb a < r" by fastforce
    then have "filter (\<lambda>e. m_lb e < r) es = []" by (simp add: filter_empty_conv)
    with False show ?thesis by simp
  qed
qed

lemma dropWhile_sorted_ge:
  "sorted_ml es \<Longrightarrow> list_all (\<lambda>e. r \<le> m_lb e) (dropWhile (\<lambda>e. m_lb e < r) es)"
  unfolding sorted_ml_def less_minimizer_def
  by (induction es) (auto simp: list_all_iff)

section \<open>The reported states and the result\<close>

text \<open>
  The state a call returns is the last state it reports, or the state it was given when it
  reports none.
\<close>

lemma last_last: "last (last (a # xs) # ys) = last (a # xs @ ys)"
  by simp

lemma last_tighten_prefix:
  "last (s # (if Fin (right fxy) < min_ub s then [tighten fxy s] else []) @ tr)
     = last (tighten fxy s # tr)"
  by (simp add: tighten_same)

lemma minimize_last_trace:
  "minimize ops n f x y threshold s
     = map_option (\<lambda>tr. last (s # tr)) (minimize_trace ops n f x y threshold s)"
proof (induction n arbitrary: x y s)
  case 0
  show ?case
  proof (cases "min_ub s < Fin (left (f x y))")
    case True
    then show ?thesis by (simp add: minimize_pruned minimize_trace_pruned)
  next
    case np: False
    show ?thesis
    proof (cases "width ops x \<le> threshold")
      case True
      with np show ?thesis by (simp add: minimize_leaf minimize_trace_leaf)
    next
      case False
      with np show ?thesis by (simp add: minimize_split_0 minimize_trace_split_0)
    qed
  qed
next
  case (Suc k)
  show ?case
  proof (cases "min_ub s < Fin (left (f x y))")
    case True
    then show ?thesis by (simp add: minimize_pruned minimize_trace_pruned)
  next
    case np: False
    show ?thesis
    proof (cases "width ops x \<le> threshold")
      case True
      with np show ?thesis by (simp add: minimize_leaf minimize_trace_leaf)
    next
      case False
      show ?thesis
        unfolding minimize_split_Suc [where f = f and x = x and y = y, OF np False]
          minimize_trace_split_Suc [where f = f and x = x and y = y, OF np False] Suc.IH
        by (simp only: bind_map_option map_option_bind o_def last_last append_assoc
            map_conv_bind_option bind_assoc bind.bind_lunit
            option.map last_tighten_prefix)
    qed
  qed
qed

text \<open>
  A property of states that the tightening and the insertion keep holds for every state a
  run reports. The boxes of a run may be restricted by a predicate that the four quadrants
  of a box inherit.
\<close>

lemma last_list_all: "P a \<Longrightarrow> list_all P xs \<Longrightarrow> P (last (a # xs))"
  by (induction xs arbitrary: a) auto

lemma mid_inside_exact: "mid_inside exact"
  by (simp add: mid_inside_def exact_def valid_def field_simps)

lemma halves_valid:
  assumes "mid_inside ops" "valid x"
  shows "valid (interval (left x) (mid ops x))" "valid (interval (mid ops x) (right x))"
    "sub_interval (interval (left x) (mid ops x)) x" "sub_interval (interval (mid ops x) (right x)) x"
  using assms by (simp_all add: valid_def sub_interval_def mid_inside_def)

lemma minimize_trace_list_all:
  assumes tight: "\<And>s x y. P s \<Longrightarrow> B x y \<Longrightarrow>
      \<not> min_ub s < Fin (left (f x y)) \<Longrightarrow> P (tighten (f x y) s)"
    and ins: "\<And>s x y. P s \<Longrightarrow> B x y \<Longrightarrow>
      \<not> min_ub s < Fin (left (f x y)) \<Longrightarrow>
      P ((tighten (f x y) s)\<lparr>ml := insert_ml (minimizer x y (left (f x y)) (right (f x y)))
        (ml (tighten (f x y) s))\<rparr>)"
    and halves: "\<And>x y. B x y \<Longrightarrow>
      B (interval (left x) (mid ops x)) (interval (left y) (mid ops y))
      \<and> B (interval (left x) (mid ops x)) (interval (mid ops y) (right y))
      \<and> B (interval (mid ops x) (right x)) (interval (left y) (mid ops y))
      \<and> B (interval (mid ops x) (right x)) (interval (mid ops y) (right y))"
  shows "P s \<Longrightarrow> B x y \<Longrightarrow>
    minimize_trace ops n f x y threshold s = Some tr \<Longrightarrow> list_all P tr"
proof (induction n arbitrary: x y s tr)
  case 0
  show ?case
  proof (cases "min_ub s < Fin (left (f x y))")
    case True
    with 0 show ?thesis by (simp add: minimize_trace_pruned)
  next
    case np: False
    show ?thesis
    proof (cases "width ops x \<le> threshold")
      case True
      with np 0 tight [OF "0.prems"(1,2) np] ins [OF "0.prems"(1,2) np] show ?thesis
        by (auto simp: minimize_trace_leaf)
    next
      case False
      with np 0 show ?thesis by (simp add: minimize_trace_split_0)
    qed
  qed
next
  case (Suc k)
  show ?case
  proof (cases "min_ub s < Fin (left (f x y))")
    case True
    with Suc.prems show ?thesis by (simp add: minimize_trace_pruned)
  next
    case np: False
    let ?s1 = "tighten (f x y) s"
    have p1: "P ?s1" by (rule tight [OF Suc.prems(1,2) np])
    note h = halves [OF Suc.prems(2)]
    show ?thesis
    proof (cases "width ops x \<le> threshold")
      case True
      with np Suc.prems p1 ins [OF Suc.prems(1,2) np] show ?thesis
        by (auto simp: minimize_trace_leaf)
    next
      case False
      from Suc.prems(3) obtain t1 t2 t3 t4 where
        e1: "minimize_trace ops k f (interval (left x) (mid ops x)) (interval (left y) (mid ops y)) threshold ?s1 = Some t1"
        and e2: "minimize_trace ops k f (interval (left x) (mid ops x)) (interval (mid ops y) (right y)) threshold (last (?s1 # t1)) = Some t2"
        and e3: "minimize_trace ops k f (interval (mid ops x) (right x)) (interval (left y) (mid ops y)) threshold (last (?s1 # t1 @ t2)) = Some t3"
        and e4: "minimize_trace ops k f (interval (mid ops x) (right x)) (interval (mid ops y) (right y)) threshold (last (?s1 # t1 @ t2 @ t3)) = Some t4"
        and tr: "tr = (if Fin (right (f x y)) < min_ub s then [?s1] else []) @ t1 @ t2 @ t3 @ t4"
        unfolding minimize_trace_split_Suc [where f = f and x = x and y = y, OF np False]
        by (auto simp: bind_eq_Some_conv)
      have a1: "list_all P t1" by (rule Suc.IH [OF p1 h [THEN conjunct1] e1])
      have "P (last (?s1 # t1))" by (rule last_list_all [where P = P, OF p1 a1])
      then have a2: "list_all P t2" by (rule Suc.IH [OF _ h [THEN conjunct2, THEN conjunct1] e2])
      have "P (last (?s1 # t1 @ t2))"
        by (rule last_list_all [where P = P, OF p1]) (simp add: a1 a2)
      then have a3: "list_all P t3" by (rule Suc.IH [OF _ h [THEN conjunct2, THEN conjunct2, THEN conjunct1] e3])
      have "P (last (?s1 # t1 @ t2 @ t3))"
        by (rule last_list_all [where P = P, OF p1]) (simp add: a1 a2 a3)
      then have a4: "list_all P t4" by (rule Suc.IH [OF _ h [THEN conjunct2, THEN conjunct2, THEN conjunct2] e4])
      show ?thesis using tr p1 a1 a2 a3 a4 by simp
    qed
  qed
qed

lemma minimize_trace_sorted:
  assumes "sorted_ml (ml s)" and "minimize_trace ops n f x y threshold s = Some tr"
  shows "list_all (\<lambda>s'. sorted_ml (ml s')) tr"
  by (rule minimize_trace_list_all [where P = "\<lambda>s'. sorted_ml (ml s')"
        and B = "\<lambda>x y. True", OF _ _ _ assms(1) _ assms(2)])
     (simp_all add: sorted_tighten sorted_insert_ml)

lemma minimize_sorted:
  assumes "sorted_ml (ml s)" and "minimize ops n f x y threshold s = Some s'"
  shows "sorted_ml (ml s')"
proof -
  from assms(2) obtain tr where
    tr: "minimize_trace ops n f x y threshold s = Some tr" and s': "s' = last (s # tr)"
    unfolding minimize_last_trace by auto
  have "list_all (\<lambda>s'. sorted_ml (ml s')) tr" by (rule minimize_trace_sorted [OF assms(1) tr])
  with assms(1) show ?thesis unfolding s'
    by (rule last_list_all [where P = "\<lambda>s'. sorted_ml (ml s')"])
qed

section \<open>The box splitter\<close>

lemma quadrants_eq:
  "quadrants ops x y =
     [(interval (left x) (mid ops x), interval (left y) (mid ops y)),
      (interval (left x) (mid ops x), interval (mid ops y) (right y)),
      (interval (mid ops x) (right x), interval (left y) (mid ops y)),
      (interval (mid ops x) (right x), interval (mid ops y) (right y))]"
  by (simp add: quadrants_def split_box_def Let_def)

lemma mid_between: "valid i \<Longrightarrow> left i \<le> mid exact i \<and> mid exact i \<le> right i"
  by (simp add: valid_def exact_def field_simps)

lemma quadrants_cover:
  assumes "left x \<le> mid ops x \<and> mid ops x \<le> right x"
    and "left y \<le> mid ops y \<and> mid ops y \<le> right y"
  shows "in_box (x, y) p = (\<exists>q\<in>set (quadrants ops x y). in_box q p)"
  using assms
  unfolding quadrants_eq in_box_def
  by (cases p) auto

lemma quadrants_interiors_disjoint:
  assumes "i < j" "j < 4"
  shows "\<not> (in_interior (quadrants ops x y ! i) p \<and> in_interior (quadrants ops x y ! j) p)"
proof -
  from assms have "(i, j) \<in> {(0, 1), (0, 2), (0, 3), (1, 2), (1, 3), (2, 3)}"
    by auto
  then show ?thesis
    unfolding quadrants_eq in_interior_def by (cases p) auto
qed

text \<open>
  C6. For a box \<open>(x, y)\<close> whose midpoints lie between the ends of their intervals, as
  they do for valid intervals when the midpoint is exact, and as a midpoint rounded to a
  \<open>double\<close> between two \<open>double\<close>s does: \<open>split_box\<close> returns the intervals
  \<open>xl = [x.lo, x.mid]\<close>, \<open>xr = [x.mid, x.hi]\<close>, \<open>yl = [y.lo, y.mid]\<close> and
  \<open>yr = [y.mid, y.hi]\<close>, from which its callers form the four quadrants \<open>(xl, yl)\<close>,
  \<open>(xl, yr)\<close>, \<open>(xr, yl)\<close>, \<open>(xr, yr)\<close>. A point lies in the box exactly when it lies
  in one of the quadrants, and no point lies in the interior of two of them. The splitter
  is a function of its two arguments and nothing else: it reads and writes no state.
\<close>

theorem split_box_tiles:
  assumes "left x \<le> mid ops x \<and> mid ops x \<le> right x"
    and "left y \<le> mid ops y \<and> mid ops y \<le> right y"
  shows "split_box ops x y =
      (interval (left x) (mid ops x), interval (mid ops x) (right x),
       interval (left y) (mid ops y), interval (mid ops y) (right y))
    \<and> quadrants ops x y =
      [(interval (left x) (mid ops x), interval (left y) (mid ops y)),
       (interval (left x) (mid ops x), interval (mid ops y) (right y)),
       (interval (mid ops x) (right x), interval (left y) (mid ops y)),
       (interval (mid ops x) (right x), interval (mid ops y) (right y))]
    \<and> (\<forall>p. in_box (x, y) p = (\<exists>q\<in>set (quadrants ops x y). in_box q p))
    \<and> (\<forall>i j p. i < j \<and> j < 4 \<longrightarrow>
         \<not> (in_interior (quadrants ops x y ! i) p \<and> in_interior (quadrants ops x y ! j) p))"
proof -
  have a: "split_box ops x y =
      (interval (left x) (mid ops x), interval (mid ops x) (right x),
       interval (left y) (mid ops y), interval (mid ops y) (right y))"
    by (simp add: split_box_def Let_def)
  have c: "\<forall>p. in_box (x, y) p = (\<exists>q\<in>set (quadrants ops x y). in_box q p)"
    using quadrants_cover [OF assms] by blast
  have d: "\<forall>i j p. i < j \<and> j < 4 \<longrightarrow>
         \<not> (in_interior (quadrants ops x y ! i) p \<and> in_interior (quadrants ops x y ! j) p)"
    using quadrants_interiors_disjoint by blast
  from a quadrants_eq [of ops x y] c d show ?thesis by blast
qed

theorem split_box_tiles_witness:
  "valid (interval 0 2) \<and> valid (interval 0 4)
   \<and> split_box exact (interval 0 2) (interval 0 4)
       = (interval 0 1, interval 1 2, interval 0 2, interval 2 4)
   \<and> in_box (interval 0 2, interval 0 4) (1 / 2, 3)
   \<and> (\<exists>q\<in>set (quadrants exact (interval 0 2) (interval 0 4)). in_box q (1 / 2, 3))
   \<and> \<not> (in_interior (quadrants exact (interval 0 2) (interval 0 4) ! 1) (1 / 2, 3)
        \<and> in_interior (quadrants exact (interval 0 2) (interval 0 4) ! 3) (1 / 2, 3))"
proof -
  have h1: "valid (interval 0 2)" and h2: "valid (interval 0 4)"
    by (simp_all add: valid_def)
  have b: "in_box (interval 0 2, interval 0 4) (1 / 2, 3)" by (simp add: in_box_def)
  have m: "mid exact (interval 0 2) = 1" "mid exact (interval 0 4) = 2" by (simp_all add: exact_def)
  have o: "(1::nat) < 3 \<and> (3::nat) < 4" by simp
  note t = split_box_tiles [OF mid_between [OF h1] mid_between [OF h2]]
  from t have s: "split_box exact (interval 0 2) (interval 0 4)
       = (interval 0 1, interval 1 2, interval 0 2, interval 2 4)"
    by (simp add: m)
  from t b have c: "\<exists>q\<in>set (quadrants exact (interval 0 2) (interval 0 4)). in_box q (1 / 2, 3)"
    by blast
  from t o have d: "\<not> (in_interior (quadrants exact (interval 0 2) (interval 0 4) ! 1) (1 / 2, 3)
        \<and> in_interior (quadrants exact (interval 0 2) (interval 0 4) ! 3) (1 / 2, 3))"
    by blast
  from h1 h2 s b c d show ?thesis by blast
qed

section \<open>Pruning\<close>

text \<open>
  C5. A call whose enclosure has its left endpoint strictly above the current bound returns
  at once, whatever the limit on the recursion: the state it returns is the state it was
  given, bound and Candidate Set alike, and it reports no change of the state on the way.
\<close>

theorem minimize_prune_unchanged:
  assumes "min_ub s < Fin (left (f x y))"
  shows "minimize ops n f x y threshold s = Some s
    \<and> minimize_trace ops n f x y threshold s = Some []"
  using assms by (simp add: minimize_pruned minimize_trace_pruned)

theorem minimize_prune_unchanged_witness:
  "min_ub \<lparr>min_ub = Fin 0, ml = []\<rparr> < Fin (left (const_fun 1 (interval 0 4) (interval 0 4)))
   \<and> minimize exact 0 (const_fun 1) (interval 0 4) (interval 0 4) 1 \<lparr>min_ub = Fin 0, ml = []\<rparr>
       = Some \<lparr>min_ub = Fin 0, ml = []\<rparr>
   \<and> minimize_trace exact 0 (const_fun 1) (interval 0 4) (interval 0 4) 1 \<lparr>min_ub = Fin 0, ml = []\<rparr>
       = Some []"
proof -
  have h: "min_ub \<lparr>min_ub = Fin 0, ml = []\<rparr> < Fin (left (const_fun 1 (interval 0 4) (interval 0 4)))"
    by (simp add: const_fun_def)
  show ?thesis
    using h minimize_prune_unchanged [where s = "\<lparr>min_ub = Fin 0, ml = []\<rparr>"
        and f = "const_fun 1" and x = "interval 0 4" and y = "interval 0 4"
        and n = 0 and threshold = 1]
    by simp
qed

section \<open>Tightening\<close>

text \<open>
  A call that tightens goes on exactly as it would from the tightened state: the second
  tightening changes nothing, and the box is not pruned from the tightened state either.
\<close>

lemma minimize_from_tightened:
  assumes np: "\<not> min_ub s < Fin (left (f x y))" and v: "valid (f x y)"
  shows "minimize ops n f x y threshold s = minimize ops n f x y threshold (tighten (f x y) s)"
proof -
  note np' = tighten_not_pruned [OF np v]
  show ?thesis
  proof (cases "width ops x \<le> threshold")
    case True
    show ?thesis
      by (simp add: minimize_leaf [where f = f, OF np True] minimize_leaf [where f = f, OF np' True]
          tighten_idem)
  next
    case False
    show ?thesis
    proof (cases n)
      case 0
      show ?thesis
        by (simp add: 0 minimize_split_0 [where f = f, OF np False]
            minimize_split_0 [where f = f, OF np' False])
    next
      case (Suc k)
      show ?thesis
        by (simp add: Suc minimize_split_Suc [where f = f, OF np False]
            minimize_split_Suc [where f = f, OF np' False] tighten_idem)
    qed
  qed
qed

lemma minimize_trace_from_tightened:
  assumes np: "\<not> min_ub s < Fin (left (f x y))" and v: "valid (f x y)"
    and lt: "Fin (right (f x y)) < min_ub s"
  shows "minimize_trace ops n f x y threshold s
    = map_option ((#) (tighten (f x y) s))
        (minimize_trace ops n f x y threshold (tighten (f x y) s))"
proof -
  note np' = tighten_not_pruned [OF np v]
  have nl: "\<not> Fin (right (f x y)) < min_ub (tighten (f x y) s)"
    by (simp add: tighten_min_ub)
  show ?thesis
  proof (cases "width ops x \<le> threshold")
    case True
    show ?thesis
      by (simp add: minimize_trace_leaf [where f = f, OF np True]
          minimize_trace_leaf [where f = f, OF np' True] tighten_idem lt nl)
  next
    case False
    show ?thesis
    proof (cases n)
      case 0
      show ?thesis
        by (simp add: 0 minimize_trace_split_0 [where f = f, OF np False]
            minimize_trace_split_0 [where f = f, OF np' False])
    next
      case (Suc k)
      show ?thesis
        by (simp add: Suc minimize_trace_split_Suc [where f = f, OF np False]
            minimize_trace_split_Suc [where f = f, OF np' False] tighten_idem lt nl
            map_option_bind o_def map_conv_bind_option)
    qed
  qed
qed

text \<open>
  C2. In a call of \<open>minimize\<close> whose enclosure is a valid interval with its right
  endpoint strictly below the current bound, on a Candidate Set in ascending order of
  \<open>lb\<close>: the set is the entries whose \<open>lb\<close> is below that right endpoint, in their
  order, followed by a suffix all of whose entries have \<open>lb\<close> at least that endpoint.
  Under every limit on the recursion, the call does what it does from the state whose bound
  is that right endpoint and whose set is the entries below it, the suffix removed: it
  returns the same state from both, or returns from neither; the state with the new bound
  and without the suffix is the first change of state it reports; on a box narrow enough to
  stop, the state it returns is that state with the Candidate of the box inserted; and on a
  wider box the call is the sequence of its four recursive calls, the first of them started
  from that state, which needs one level of recursion at least.
\<close>

theorem tighten_evicts_suffix:
  assumes "valid (f x y)" and "sorted_ml (ml s)" and "Fin (right (f x y)) < min_ub s"
  shows "(\<exists>suffix. ml s = filter (\<lambda>m. m_lb m < right (f x y)) (ml s) @ suffix
          \<and> list_all (\<lambda>m. right (f x y) \<le> m_lb m) suffix)
    \<and> minimize ops n f x y threshold s
        = minimize ops n f x y threshold
            \<lparr>min_ub = Fin (right (f x y)), ml = filter (\<lambda>m. m_lb m < right (f x y)) (ml s)\<rparr>
    \<and> minimize_trace ops n f x y threshold s
        = map_option
            ((#) \<lparr>min_ub = Fin (right (f x y)), ml = filter (\<lambda>m. m_lb m < right (f x y)) (ml s)\<rparr>)
            (minimize_trace ops n f x y threshold
              \<lparr>min_ub = Fin (right (f x y)), ml = filter (\<lambda>m. m_lb m < right (f x y)) (ml s)\<rparr>)
    \<and> (width ops x \<le> threshold \<longrightarrow>
         minimize ops n f x y threshold s
           = Some \<lparr>min_ub = Fin (right (f x y)),
               ml = insert_ml (minimizer x y (left (f x y)) (right (f x y)))
                      (filter (\<lambda>m. m_lb m < right (f x y)) (ml s))\<rparr>)
    \<and> (\<not> width ops x \<le> threshold \<longrightarrow>
         minimize ops n f x y threshold s
           = (case n of
                0 \<Rightarrow> None
              | Suc k \<Rightarrow>
                  Option.bind (minimize ops k f (interval (left x) (mid ops x))
                    (interval (left y) (mid ops y)) threshold
                    \<lparr>min_ub = Fin (right (f x y)),
                       ml = filter (\<lambda>m. m_lb m < right (f x y)) (ml s)\<rparr>) (\<lambda>s2.
                  Option.bind (minimize ops k f (interval (left x) (mid ops x))
                    (interval (mid ops y) (right y)) threshold s2) (\<lambda>s3.
                  Option.bind (minimize ops k f (interval (mid ops x) (right x))
                    (interval (left y) (mid ops y)) threshold s3) (\<lambda>s4.
                  minimize ops k f (interval (mid ops x) (right x))
                    (interval (mid ops y) (right y)) threshold s4)))))"
proof -
  let ?r = "right (f x y)"
  let ?K = "\<lparr>min_ub = Fin ?r, ml = filter (\<lambda>m. m_lb m < ?r) (ml s)\<rparr>"
  have t: "tighten (f x y) s = ?K"
    by (simp add: tighten_ml [OF assms(3)] takeWhile_sorted_filter [OF assms(2)])
  have "ml s = takeWhile (\<lambda>e. m_lb e < ?r) (ml s) @ dropWhile (\<lambda>e. m_lb e < ?r) (ml s)"
    by simp
  then have "ml s = filter (\<lambda>m. m_lb m < ?r) (ml s) @ dropWhile (\<lambda>e. m_lb e < ?r) (ml s)"
    by (simp only: takeWhile_sorted_filter [OF assms(2)])
  with dropWhile_sorted_ge [OF assms(2), of ?r]
  have a: "\<exists>suffix. ml s = filter (\<lambda>m. m_lb m < ?r) (ml s) @ suffix
          \<and> list_all (\<lambda>m. ?r \<le> m_lb m) suffix"
    by blast
  have "Fin (left (f x y)) \<le> Fin ?r" using assms(1) by (simp add: valid_def)
  also note assms(3)
  finally have "Fin (left (f x y)) < min_ub s" .
  then have np: "\<not> min_ub s < Fin (left (f x y))" by (rule less_not_sym)
  have b: "minimize ops n f x y threshold s = minimize ops n f x y threshold ?K"
    using minimize_from_tightened [where f = f and x = x and y = y, OF np assms(1)]
    by (simp only: t)
  have c: "minimize_trace ops n f x y threshold s
        = map_option ((#) ?K) (minimize_trace ops n f x y threshold ?K)"
    using minimize_trace_from_tightened [where f = f and x = x and y = y, OF np assms(1,3)]
    by (simp only: t)
  have d: "minimize ops n f x y threshold s
           = Some \<lparr>min_ub = Fin ?r,
               ml = insert_ml (minimizer x y (left (f x y)) ?r) (filter (\<lambda>m. m_lb m < ?r) (ml s))\<rparr>"
    if "width ops x \<le> threshold"
    by (simp add: minimize_leaf [where f = f and x = x and y = y, OF np that] t)
  have e: "minimize ops n f x y threshold s
           = (case n of
                0 \<Rightarrow> None
              | Suc k \<Rightarrow>
                  Option.bind (minimize ops k f (interval (left x) (mid ops x))
                    (interval (left y) (mid ops y)) threshold ?K) (\<lambda>s2.
                  Option.bind (minimize ops k f (interval (left x) (mid ops x))
                    (interval (mid ops y) (right y)) threshold s2) (\<lambda>s3.
                  Option.bind (minimize ops k f (interval (mid ops x) (right x))
                    (interval (left y) (mid ops y)) threshold s3) (\<lambda>s4.
                  minimize ops k f (interval (mid ops x) (right x))
                    (interval (mid ops y) (right y)) threshold s4))))"
    if w: "\<not> width ops x \<le> threshold"
  proof (cases n)
    case 0
    then show ?thesis
      by (simp add: minimize_split_0 [where f = f and x = x and y = y, OF np w])
  next
    case (Suc k)
    then show ?thesis
      by (simp add: minimize_split_Suc [where f = f and x = x and y = y, OF np w] t)
  qed
  from a b c d e show ?thesis by blast
qed

theorem tighten_evicts_suffix_witness:
  "valid (const_fun 3 (interval 0 1) (interval 0 1))
   \<and> sorted_ml (ml ex_state)
   \<and> Fin (right (const_fun 3 (interval 0 1) (interval 0 1))) < min_ub ex_state
   \<and> width exact (interval 0 1) \<le> 1
   \<and> filter (\<lambda>m. m_lb m < right (const_fun 3 (interval 0 1) (interval 0 1))) (ml ex_state)
       = [minimizer (interval 0 1) (interval 0 1) 0 5]
   \<and> minimize exact 0 (const_fun 3) (interval 0 1) (interval 0 1) 1 ex_state
       = Some \<lparr>min_ub = Fin 3,
           ml = [minimizer (interval 0 1) (interval 0 1) 0 5,
                 minimizer (interval 0 1) (interval 0 1) 3 3]\<rparr>
   \<and> minimize_trace exact 0 (const_fun 3) (interval 0 1) (interval 0 1) 1 ex_state
       = Some [\<lparr>min_ub = Fin 3, ml = [minimizer (interval 0 1) (interval 0 1) 0 5]\<rparr>,
               \<lparr>min_ub = Fin 3,
                  ml = [minimizer (interval 0 1) (interval 0 1) 0 5,
                        minimizer (interval 0 1) (interval 0 1) 3 3]\<rparr>]
   \<and> \<not> width exact (interval 0 2) \<le> 1
   \<and> minimize exact 1 (const_fun 3) (interval 0 2) (interval 0 2) 1 ex_state
       = Some \<lparr>min_ub = Fin 3,
           ml = [minimizer (interval 0 1) (interval 0 1) 0 5,
                 minimizer (interval 0 1) (interval 0 1) 3 3,
                 minimizer (interval 0 1) (interval 1 2) 3 3,
                 minimizer (interval 1 2) (interval 0 1) 3 3,
                 minimizer (interval 1 2) (interval 1 2) 3 3]\<rparr>
   \<and> minimize exact 0 (const_fun 3) (interval 0 2) (interval 0 2) 1 ex_state = None"
proof -
  have h1: "valid (const_fun 3 (interval 0 1) (interval 0 1))"
    by (simp add: valid_def const_fun_def)
  have h2: "sorted_ml (ml ex_state)"
    by (simp add: sorted_ml_def ex_state_def less_minimizer_def)
  have h3: "Fin (right (const_fun 3 (interval 0 1) (interval 0 1))) < min_ub ex_state"
    by (simp add: const_fun_def ex_state_def)
  have h4: "width exact (interval 0 1) \<le> 1" by (simp add: exact_def)
  have e: "filter (\<lambda>m. m_lb m < right (const_fun 3 (interval 0 1) (interval 0 1))) (ml ex_state)
       = [minimizer (interval 0 1) (interval 0 1) 0 5]"
    by (simp add: const_fun_def ex_state_def)
  have k: "minimize_trace exact 0 (const_fun 3) (interval 0 1) (interval 0 1) 1
        \<lparr>min_ub = Fin 3, ml = [minimizer (interval 0 1) (interval 0 1) 0 5]\<rparr>
      = Some [\<lparr>min_ub = Fin 3,
                  ml = [minimizer (interval 0 1) (interval 0 1) 0 5,
                        minimizer (interval 0 1) (interval 0 1) 3 3]\<rparr>]"
    by code_simp
  have i: "insert_ml (minimizer (interval 0 1) (interval 0 1) 3 3)
        [minimizer (interval 0 1) (interval 0 1) 0 5]
      = [minimizer (interval 0 1) (interval 0 1) 0 5, minimizer (interval 0 1) (interval 0 1) 3 3]"
    by (simp add: less_minimizer_def)
  note t = tighten_evicts_suffix [where f = "const_fun 3" and x = "interval 0 1"
      and y = "interval 0 1" and s = ex_state and n = 0 and threshold = 1 and ops = exact,
      OF h1 h2 h3, unfolded e]
  have c: "right (const_fun 3 (interval 0 1) (interval 0 1)) = 3"
    "left (const_fun 3 (interval 0 1) (interval 0 1)) = 3"
    by (simp_all add: const_fun_def)
  from t have t4: "width exact (interval 0 1) \<le> 1 \<longrightarrow>
      minimize exact 0 (const_fun 3) (interval 0 1) (interval 0 1) 1 ex_state
       = Some \<lparr>min_ub = Fin (right (const_fun 3 (interval 0 1) (interval 0 1))),
           ml = insert_ml (minimizer (interval 0 1) (interval 0 1)
                   (left (const_fun 3 (interval 0 1) (interval 0 1)))
                   (right (const_fun 3 (interval 0 1) (interval 0 1))))
                 [minimizer (interval 0 1) (interval 0 1) 0 5]\<rparr>"
    by blast
  from t4 h4 have m: "minimize exact 0 (const_fun 3) (interval 0 1) (interval 0 1) 1 ex_state
       = Some \<lparr>min_ub = Fin 3,
           ml = [minimizer (interval 0 1) (interval 0 1) 0 5,
                 minimizer (interval 0 1) (interval 0 1) 3 3]\<rparr>"
    by (simp add: c less_minimizer_def)
  from t have t3: "minimize_trace exact 0 (const_fun 3) (interval 0 1) (interval 0 1) 1 ex_state
       = map_option
           ((#) \<lparr>min_ub = Fin (right (const_fun 3 (interval 0 1) (interval 0 1))),
                  ml = [minimizer (interval 0 1) (interval 0 1) 0 5]\<rparr>)
           (minimize_trace exact 0 (const_fun 3) (interval 0 1) (interval 0 1) 1
             \<lparr>min_ub = Fin (right (const_fun 3 (interval 0 1) (interval 0 1))),
                ml = [minimizer (interval 0 1) (interval 0 1) 0 5]\<rparr>)"
    by blast
  have r: "minimize_trace exact 0 (const_fun 3) (interval 0 1) (interval 0 1) 1 ex_state
       = Some [\<lparr>min_ub = Fin 3, ml = [minimizer (interval 0 1) (interval 0 1) 0 5]\<rparr>,
               \<lparr>min_ub = Fin 3,
                  ml = [minimizer (interval 0 1) (interval 0 1) 0 5,
                        minimizer (interval 0 1) (interval 0 1) 3 3]\<rparr>]"
    by (simp add: t3 c k)
  have g1: "valid (const_fun 3 (interval 0 2) (interval 0 2))"
    by (simp add: valid_def const_fun_def)
  have g3: "Fin (right (const_fun 3 (interval 0 2) (interval 0 2))) < min_ub ex_state"
    by (simp add: const_fun_def ex_state_def)
  have g4: "\<not> width exact (interval 0 2) \<le> 1" by (simp add: exact_def)
  have e2: "filter (\<lambda>m. m_lb m < 3) (ml ex_state) = [minimizer (interval 0 1) (interval 0 1) 0 5]"
    by (simp add: ex_state_def)
  have c2: "right (const_fun 3 (interval 0 2) (interval 0 2)) = 3"
    by (simp add: const_fun_def)
  have md: "mid exact (interval 0 2) = 1" by (simp add: exact_def)
  have q: "Option.bind (minimize exact 0 (const_fun 3) (interval 0 1) (interval 0 1) 1
          \<lparr>min_ub = Fin 3, ml = [minimizer (interval 0 1) (interval 0 1) 0 5]\<rparr>) (\<lambda>s2.
        Option.bind (minimize exact 0 (const_fun 3) (interval 0 1) (interval 1 2) 1 s2) (\<lambda>s3.
        Option.bind (minimize exact 0 (const_fun 3) (interval 1 2) (interval 0 1) 1 s3) (\<lambda>s4.
        minimize exact 0 (const_fun 3) (interval 1 2) (interval 1 2) 1 s4)))
      = Some \<lparr>min_ub = Fin 3,
           ml = [minimizer (interval 0 1) (interval 0 1) 0 5,
                 minimizer (interval 0 1) (interval 0 1) 3 3,
                 minimizer (interval 0 1) (interval 1 2) 3 3,
                 minimizer (interval 1 2) (interval 0 1) 3 3,
                 minimizer (interval 1 2) (interval 1 2) 3 3]\<rparr>"
    by code_simp
  note u1 = tighten_evicts_suffix [where f = "const_fun 3" and x = "interval 0 2"
      and y = "interval 0 2" and s = ex_state and n = 1 and threshold = 1 and ops = exact,
      OF g1 h2 g3, unfolded c2, unfolded e2 md interval.sel]
  from u1 have "\<not> width exact (interval 0 2) \<le> 1 \<longrightarrow>
      minimize exact 1 (const_fun 3) (interval 0 2) (interval 0 2) 1 ex_state
       = (case 1 of
            0 \<Rightarrow> None
          | Suc k \<Rightarrow>
              Option.bind (minimize exact k (const_fun 3) (interval 0 1) (interval 0 1) 1
                \<lparr>min_ub = Fin 3, ml = [minimizer (interval 0 1) (interval 0 1) 0 5]\<rparr>) (\<lambda>s2.
              Option.bind (minimize exact k (const_fun 3) (interval 0 1) (interval 1 2) 1 s2) (\<lambda>s3.
              Option.bind (minimize exact k (const_fun 3) (interval 1 2) (interval 0 1) 1 s3) (\<lambda>s4.
              minimize exact k (const_fun 3) (interval 1 2) (interval 1 2) 1 s4))))"
    by blast
  with g4 have m1: "minimize exact 1 (const_fun 3) (interval 0 2) (interval 0 2) 1 ex_state
       = Some \<lparr>min_ub = Fin 3,
           ml = [minimizer (interval 0 1) (interval 0 1) 0 5,
                 minimizer (interval 0 1) (interval 0 1) 3 3,
                 minimizer (interval 0 1) (interval 1 2) 3 3,
                 minimizer (interval 1 2) (interval 0 1) 3 3,
                 minimizer (interval 1 2) (interval 1 2) 3 3]\<rparr>"
    by (simp add: q)
  note u0 = tighten_evicts_suffix [where f = "const_fun 3" and x = "interval 0 2"
      and y = "interval 0 2" and s = ex_state and n = 0 and threshold = 1 and ops = exact,
      OF g1 h2 g3, THEN conjunct2, THEN conjunct2, THEN conjunct2, THEN conjunct2, rule_format,
      OF g4]
  from u0 have m0: "minimize exact 0 (const_fun 3) (interval 0 2) (interval 0 2) 1 ex_state = None"
    by simp
  from h1 h2 h3 h4 e m r g4 m1 m0 show ?thesis by blast
qed

section \<open>The stop test\<close>

text \<open>
  C4, as first stated: every call on a box whose x-interval is no wider than the threshold
  inserts a Candidate. A call that is pruned returns before the stop test is reached: here
  the bound is 0, the enclosure is \<open>[1, 1]\<close>, the box is narrow enough, and the call
  returns the empty Candidate Set it was given.
\<close>

theorem stop_without_prune_counterexample:
  "width exact (interval 0 1) \<le> 1
   \<and> minimize exact 0 (const_fun 1) (interval 0 1) (interval 0 1) 1 \<lparr>min_ub = Fin 0, ml = []\<rparr>
       = Some \<lparr>min_ub = Fin 0, ml = []\<rparr>
   \<and> minimize_trace exact 0 (const_fun 1) (interval 0 1) (interval 0 1) 1 \<lparr>min_ub = Fin 0, ml = []\<rparr>
       = Some []"
  by code_simp

text \<open>
  C4, amended. A call that is not pruned, on a box whose x-interval is no wider than the
  threshold, returns the tightened state with the Candidate
  \<open>(x, y, enclosure.left, enclosure.right)\<close> inserted: the set gains that one entry. It
  does so under every limit on the recursion, the limit 0 included, so it neither splits
  nor recurses. The test reads the width of \<open>x\<close> only: \<open>y\<close> is arbitrary in both
  halves of the statement, and a call that is not pruned on a box whose x-interval is wider
  than the threshold has to split, however narrow \<open>y\<close> is.
\<close>

theorem stop_inserts_candidate:
  assumes "\<not> min_ub s < Fin (left (f x y))"
  shows "(width ops x \<le> threshold \<longrightarrow>
      minimize ops n f x y threshold s =
        Some ((tighten (f x y) s)\<lparr>ml :=
          insert_ml (minimizer x y (left (f x y)) (right (f x y))) (ml (tighten (f x y) s))\<rparr>)
      \<and> set (insert_ml (minimizer x y (left (f x y)) (right (f x y))) (ml (tighten (f x y) s)))
          = insert (minimizer x y (left (f x y)) (right (f x y))) (set (ml (tighten (f x y) s)))
      \<and> length (insert_ml (minimizer x y (left (f x y)) (right (f x y))) (ml (tighten (f x y) s)))
          = Suc (length (ml (tighten (f x y) s))))
    \<and> (\<not> width ops x \<le> threshold \<longrightarrow> minimize ops 0 f x y threshold s = None)"
  using assms by (simp add: minimize_leaf minimize_split_0 insert_ml_set insert_ml_length)

theorem stop_inserts_candidate_witness:
  "\<not> min_ub initial_state < Fin (left (const_fun 1 (interval 0 1) (interval 0 8)))
   \<and> width exact (interval 0 1) \<le> 1
   \<and> minimize exact 0 (const_fun 1) (interval 0 1) (interval 0 8) 1 initial_state
       = Some \<lparr>min_ub = Fin 1, ml = [minimizer (interval 0 1) (interval 0 8) 1 1]\<rparr>
   \<and> \<not> width exact (interval 0 4) \<le> 1
   \<and> minimize exact 0 (const_fun 1) (interval 0 4) (interval 0 (1 / 2)) 1 initial_state = None"
proof -
  have p1: "\<not> min_ub initial_state < Fin (left (const_fun 1 (interval 0 1) (interval 0 8)))"
    by (simp add: initial_state_def)
  have p2: "\<not> min_ub initial_state < Fin (left (const_fun 1 (interval 0 4) (interval 0 (1 / 2))))"
    by (simp add: initial_state_def)
  have w1: "width exact (interval 0 1) \<le> 1" and w2: "\<not> width exact (interval 0 4) \<le> 1"
    by (simp_all add: exact_def)
  have t: "tighten (const_fun 1 (interval 0 1) (interval 0 8)) initial_state
      = \<lparr>min_ub = Fin 1, ml = []\<rparr>"
    by code_simp
  from stop_inserts_candidate [where f = "const_fun 1" and x = "interval 0 1"
      and y = "interval 0 8" and s = initial_state and n = 0 and threshold = 1, OF p1] w1
  have a: "minimize exact 0 (const_fun 1) (interval 0 1) (interval 0 8) 1 initial_state
       = Some \<lparr>min_ub = Fin 1, ml = [minimizer (interval 0 1) (interval 0 8) 1 1]\<rparr>"
    by (simp add: t) (simp add: const_fun_def)
  from stop_inserts_candidate [where f = "const_fun 1" and x = "interval 0 4"
      and y = "interval 0 (1 / 2)" and s = initial_state and threshold = 1, OF p2] w2
  have b: "minimize exact 0 (const_fun 1) (interval 0 4) (interval 0 (1 / 2)) 1 initial_state = None"
    by blast
  from p1 w1 a w2 b show ?thesis by blast
qed

section \<open>The Candidate Set invariant\<close>

lemma tighten_within: "within_bound s \<Longrightarrow> within_bound (tighten fxy s)"
  by (auto simp: tighten_def within_bound_def lower_bound_def erase_to_end_def
      less_minimizer_def Let_def list_all_iff takeWhile_eq_take [symmetric]
      dest!: set_takeWhileD)

lemma insert_within:
  assumes "within_bound s" "\<not> min_ub s < Fin (left fxy)" "valid fxy"
  shows "within_bound ((tighten fxy s)\<lparr>ml := insert_ml (minimizer x y (left fxy) (right fxy))
        (ml (tighten fxy s))\<rparr>)"
proof -
  have "Fin (left fxy) \<le> min_ub (tighten fxy s)"
    using assms(2,3) by (simp add: tighten_min_ub valid_def)
  moreover have "within_bound (tighten fxy s)"
    using assms(1) by (rule tighten_within)
  ultimately show ?thesis
    by (simp add: within_bound_def list_all_iff insert_ml_set)
qed

lemma minimize_trace_within:
  assumes "valid_fun f" "within_bound s" "valid x" "valid y" "mid_inside ops"
    and "minimize_trace ops n f x y threshold s = Some tr"
  shows "list_all within_bound tr"
proof (rule minimize_trace_list_all [where P = within_bound
      and B = "\<lambda>x y. valid x \<and> valid y", OF _ _ _ assms(2) _ assms(6)])
  fix s x y
  assume "within_bound s"
  then show "within_bound (tighten (f x y) s)" by (rule tighten_within)
next
  fix s x y
  assume "within_bound s" "valid x \<and> valid y" "\<not> min_ub s < Fin (left (f x y))"
  moreover from this assms(1) have "valid (f x y)" by (simp add: valid_fun_def)
  ultimately show "within_bound ((tighten (f x y) s)\<lparr>ml := insert_ml (minimizer x y (left (f x y)) (right (f x y)))
        (ml (tighten (f x y) s))\<rparr>)"
    by (intro insert_within)
next
  fix x y
  assume "valid x \<and> valid y"
  then show "(valid (interval (left x) (mid ops x)) \<and> valid (interval (left y) (mid ops y)))
      \<and> (valid (interval (left x) (mid ops x)) \<and> valid (interval (mid ops y) (right y)))
      \<and> (valid (interval (mid ops x) (right x)) \<and> valid (interval (left y) (mid ops y)))
      \<and> (valid (interval (mid ops x) (right x)) \<and> valid (interval (mid ops y) (right y)))"
    by (simp add: halves_valid [OF assms(5)])
next
  show "valid x \<and> valid y" using assms(3,4) by simp
qed

lemma minimize_within:
  assumes "valid_fun f" "within_bound s" "valid x" "valid y" "mid_inside ops"
    and "minimize ops n f x y threshold s = Some s'"
  shows "within_bound s'"
proof -
  from assms(6) obtain tr where
    tr: "minimize_trace ops n f x y threshold s = Some tr" and s': "s' = last (s # tr)"
    unfolding minimize_last_trace by auto
  have "list_all within_bound tr" by (rule minimize_trace_within [OF assms(1-5) tr])
  with assms(2) show ?thesis unfolding s' by (rule last_list_all)
qed

lemma valid_fun_const: "valid_fun (const_fun c)"
  by (simp add: valid_fun_def valid_def const_fun_def)

lemma valid_fun_neg_sum: "valid_fun neg_sum"
  by (simp add: valid_fun_def valid_def neg_sum_def)

lemma inclusion_monotone_neg_sum: "inclusion_monotone neg_sum"
  by (simp add: inclusion_monotone_def sub_interval_def neg_sum_def)

text \<open>
  C3, as first stated: after every change of the Candidate Set, every Candidate has
  \<open>lb\<close> strictly below the bound. A first call on a narrow box with the enclosure
  \<open>[1, 1]\<close> sets the bound to 1 and then inserts a Candidate with \<open>lb = 1\<close>.
\<close>

theorem strict_invariant_counterexample:
  "minimize_trace exact 0 (const_fun 1) (interval 0 1) (interval 0 1) 1 initial_state
     = Some [\<lparr>min_ub = Fin 1, ml = []\<rparr>,
             \<lparr>min_ub = Fin 1, ml = [minimizer (interval 0 1) (interval 0 1) 1 1]\<rparr>]
   \<and> \<not> below_bound \<lparr>min_ub = Fin 1, ml = [minimizer (interval 0 1) (interval 0 1) 1 1]\<rparr>"
  by code_simp

text \<open>
  C3, amended. For an objective whose enclosures over valid boxes are valid intervals, and
  midpoints that lie between the ends of a valid interval, a run on a valid box that starts
  with every \<open>lb\<close> at most the bound keeps it so: in every
  state reported after an insertion or an eviction, every Candidate has \<open>lb\<close> at most the
  bound of that state. Right after an eviction, whatever the state and the enclosure it
  happens at, the inequality is strict for every Candidate that remains.
\<close>

theorem candidates_within_bound:
  assumes "valid_fun f" and "valid x" and "valid y" and "within_bound s"
    and "mid_inside ops"
    and "minimize_trace ops n f x y threshold s = Some tr"
  shows "list_all within_bound tr
    \<and> (\<forall>s0 e. Fin (right e) < min_ub s0 \<longrightarrow> below_bound (tighten e s0))"
  using minimize_trace_within [OF assms(1) assms(4) assms(2,3) assms(5,6)] tighten_below
  by blast

theorem candidates_within_bound_witness:
  "valid_fun neg_sum \<and> valid (interval 0 2) \<and> within_bound initial_state
   \<and> mid_inside exact
   \<and> (\<exists>tr. minimize_trace exact 1 neg_sum (interval 0 2) (interval 0 2) 1 initial_state = Some tr
        \<and> length tr = 7 \<and> list_all within_bound tr)
   \<and> Fin (right (neg_sum (interval 0 2) (interval 0 2))) < min_ub initial_state
   \<and> below_bound (tighten (neg_sum (interval 0 2) (interval 0 2)) initial_state)"
proof -
  have h1: "valid_fun neg_sum" by (rule valid_fun_neg_sum)
  have h2: "within_bound initial_state" by (simp add: within_bound_def initial_state_def)
  have v: "valid (interval 0 2)" by (simp add: valid_def)
  have "map_option length
      (minimize_trace exact 1 neg_sum (interval 0 2) (interval 0 2) 1 initial_state) = Some 7"
    by code_simp
  then obtain tr where
    h3: "minimize_trace exact 1 neg_sum (interval 0 2) (interval 0 2) 1 initial_state = Some tr"
    and l: "length tr = 7"
    by auto
  have h4: "Fin (right (neg_sum (interval 0 2) (interval 0 2))) < min_ub initial_state"
    by (simp add: initial_state_def)
  from candidates_within_bound [OF h1 v v h2 mid_inside_exact h3] h4 h1 h2 h3 v l
    mid_inside_exact
  show ?thesis by blast
qed

section \<open>The bound never increases\<close>

lemma non_increasing_last:
  "non_increasing (a # us) \<Longrightarrow> u \<in> set (a # us) \<Longrightarrow> last (a # us) \<le> u"
  unfolding non_increasing_def
proof (induction us arbitrary: a u)
  case Nil
  then show ?case by simp
next
  case (Cons b us)
  from Cons.prems(1) have sb: "sorted_wrt (\<lambda>a b. b \<le> a) (b # us)" by simp
  show ?case
  proof (cases "u = a")
    case True
    have "last (b # us) \<in> set (b # us)" by (rule last_in_set) simp
    with Cons.prems(1) True show ?thesis by auto
  next
    case False
    with Cons.prems(2) have "u \<in> set (b # us)" by simp
    from Cons.IH [OF sb this] show ?thesis by simp
  qed
qed

lemma non_increasing_append:
  assumes "non_increasing (a # us)" "non_increasing (last (a # us) # vs)"
  shows "non_increasing (a # us @ vs)"
proof -
  have "v \<le> u" if "u \<in> set (a # us)" "v \<in> set vs" for u v
  proof -
    have "v \<le> last (a # us)"
      using assms(2) that(2) by (simp add: non_increasing_def)
    also have "last (a # us) \<le> u"
      by (rule non_increasing_last [OF assms(1) that(1)])
    finally show ?thesis .
  qed
  moreover have "sorted_wrt (\<lambda>a b. b \<le> a) vs"
    using assms(2) by (simp add: non_increasing_def)
  ultimately have "sorted_wrt (\<lambda>a b. b \<le> a) ((a # us) @ vs)"
    using assms(1) unfolding sorted_wrt_append non_increasing_def by blast
  then show ?thesis by (simp add: non_increasing_def)
qed

lemma non_increasing_Cons:
  assumes "non_increasing (a # us)" "a \<le> b"
  shows "non_increasing (b # a # us)"
  using assms unfolding non_increasing_def by (auto intro: order_trans)

lemma bounds_append:
  assumes "non_increasing (map min_ub (a # xs))"
    and "non_increasing (map min_ub (last (a # xs) # ys))"
  shows "non_increasing (map min_ub (a # xs @ ys))"
proof -
  have l: "last (map min_ub (a # xs)) = min_ub (last (a # xs))"
    by (rule last_map) simp
  have "non_increasing (min_ub a # map min_ub xs @ map min_ub ys)"
  proof (rule non_increasing_append)
    show "non_increasing (min_ub a # map min_ub xs)" using assms(1) by simp
    show "non_increasing (last (min_ub a # map min_ub xs) # map min_ub ys)"
      using assms(2) l by simp
  qed
  then show ?thesis by simp
qed

lemma minimize_trace_non_increasing:
  "minimize_trace ops n f x y threshold s = Some tr \<Longrightarrow> non_increasing (map min_ub (s # tr))"
proof (induction n arbitrary: x y s tr)
  case 0
  show ?case
  proof (cases "min_ub s < Fin (left (f x y))")
    case True
    with 0 show ?thesis by (simp add: minimize_trace_pruned non_increasing_def)
  next
    case np: False
    show ?thesis
    proof (cases "width ops x \<le> threshold")
      case True
      with np 0 tighten_le [of "f x y" s] show ?thesis
        by (auto simp: minimize_trace_leaf non_increasing_def)
    next
      case False
      with np 0 show ?thesis by (simp add: minimize_trace_split_0)
    qed
  qed
next
  case (Suc k)
  show ?case
  proof (cases "min_ub s < Fin (left (f x y))")
    case True
    with Suc.prems show ?thesis by (simp add: minimize_trace_pruned non_increasing_def)
  next
    case np: False
    let ?s1 = "tighten (f x y) s"
    show ?thesis
    proof (cases "width ops x \<le> threshold")
      case True
      with np Suc.prems tighten_le [of "f x y" s] show ?thesis
        by (auto simp: minimize_trace_leaf non_increasing_def)
    next
      case False
      from Suc.prems obtain t1 t2 t3 t4 where
        e1: "minimize_trace ops k f (interval (left x) (mid ops x)) (interval (left y) (mid ops y)) threshold ?s1 = Some t1"
        and e2: "minimize_trace ops k f (interval (left x) (mid ops x)) (interval (mid ops y) (right y)) threshold (last (?s1 # t1)) = Some t2"
        and e3: "minimize_trace ops k f (interval (mid ops x) (right x)) (interval (left y) (mid ops y)) threshold (last (?s1 # t1 @ t2)) = Some t3"
        and e4: "minimize_trace ops k f (interval (mid ops x) (right x)) (interval (mid ops y) (right y)) threshold (last (?s1 # t1 @ t2 @ t3)) = Some t4"
        and tr: "tr = (if Fin (right (f x y)) < min_ub s then [?s1] else []) @ t1 @ t2 @ t3 @ t4"
        unfolding minimize_trace_split_Suc [where f = f and x = x and y = y, OF np False]
        by (auto simp: bind_eq_Some_conv)
      have n1: "non_increasing (map min_ub (?s1 # t1))" by (rule Suc.IH [OF e1])
      have "non_increasing (map min_ub (last (?s1 # t1) # t2))" by (rule Suc.IH [OF e2])
      from bounds_append [OF n1 this]
      have n2: "non_increasing (map min_ub (?s1 # t1 @ t2))" .
      have "non_increasing (map min_ub (last (?s1 # t1 @ t2) # t3))" by (rule Suc.IH [OF e3])
      from bounds_append [OF n2 this]
      have n3: "non_increasing (map min_ub (?s1 # t1 @ t2 @ t3))" by simp
      have "non_increasing (map min_ub (last (?s1 # t1 @ t2 @ t3) # t4))" by (rule Suc.IH [OF e4])
      from bounds_append [OF n3 this]
      have n4: "non_increasing (map min_ub (?s1 # t1 @ t2 @ t3 @ t4))" by simp
      show ?thesis
      proof (cases "Fin (right (f x y)) < min_ub s")
        case True
        with tr non_increasing_Cons [OF n4 [unfolded list.map] tighten_le [of "f x y" s]]
        show ?thesis by simp
      next
        case False
        with tr n4 show ?thesis by (simp add: tighten_same)
      qed
    qed
  qed
qed

lemma minimize_le:
  assumes "minimize ops n f x y threshold s = Some s'"
  shows "min_ub s' \<le> min_ub s"
proof -
  from assms obtain tr where
    tr: "minimize_trace ops n f x y threshold s = Some tr" and s': "s' = last (s # tr)"
    unfolding minimize_last_trace by auto
  have a: "non_increasing (min_ub s # map min_ub tr)"
    using minimize_trace_non_increasing [OF tr] by simp
  have "last (min_ub s # map min_ub tr) \<le> min_ub s"
    by (rule non_increasing_last [OF a]) simp
  moreover have "last (map min_ub (s # tr)) = min_ub (last (s # tr))"
    by (rule last_map) simp
  ultimately show ?thesis by (simp add: s')
qed

text \<open>
  C8. In a run, the bounds of the state the run starts from and of the states it reports,
  taken in order, never increase from one to a later one. The last of them is the state the
  run returns, so the bound at the end is at most the bound at the start.
\<close>

theorem min_ub_never_increases:
  assumes "minimize_trace ops n f x y threshold s = Some tr"
  shows "non_increasing (map min_ub (s # tr))
    \<and> minimize ops n f x y threshold s = Some (last (s # tr))
    \<and> min_ub (last (s # tr)) \<le> min_ub s"
proof -
  have a: "non_increasing (map min_ub (s # tr))"
    by (rule minimize_trace_non_increasing [OF assms])
  have b: "minimize ops n f x y threshold s = Some (last (s # tr))"
    by (simp add: minimize_last_trace assms)
  have "last (min_ub s # map min_ub tr) \<le> min_ub s"
    by (rule non_increasing_last [OF a [unfolded list.map]]) simp
  moreover have "last (map min_ub (s # tr)) = min_ub (last (s # tr))"
    by (rule last_map) simp
  ultimately have c: "min_ub (last (s # tr)) \<le> min_ub s" by simp
  from a b c show ?thesis by blast
qed

theorem min_ub_never_increases_witness:
  "\<exists>tr. minimize_trace exact 1 neg_sum (interval 0 2) (interval 0 2) 1 initial_state = Some tr
     \<and> map min_ub (initial_state # tr)
         = [PInf, Fin 0, Fin 0, Fin (- 1), Fin (- 1), Fin (- 1), Fin (- 2), Fin (- 2)]
     \<and> non_increasing (map min_ub (initial_state # tr))
     \<and> map_option min_ub (minimize exact 1 neg_sum (interval 0 2) (interval 0 2) 1 initial_state)
         = Some (Fin (- 2))"
proof -
  have e: "map_option (map min_ub)
      (minimize_trace exact 1 neg_sum (interval 0 2) (interval 0 2) 1 initial_state)
    = Some [Fin 0, Fin 0, Fin (- 1), Fin (- 1), Fin (- 1), Fin (- 2), Fin (- 2)]"
    by code_simp
  then obtain tr where
    tr: "minimize_trace exact 1 neg_sum (interval 0 2) (interval 0 2) 1 initial_state = Some tr"
    and "map min_ub tr = [Fin 0, Fin 0, Fin (- 1), Fin (- 1), Fin (- 1), Fin (- 2), Fin (- 2)]"
    by auto
  then have m: "map min_ub (initial_state # tr)
         = [PInf, Fin 0, Fin 0, Fin (- 1), Fin (- 1), Fin (- 1), Fin (- 2), Fin (- 2)]"
    by (simp add: initial_state_def)
  have l: "min_ub (last (initial_state # tr)) = Fin (- 2)"
    using m last_map [of "initial_state # tr" min_ub] by simp
  from min_ub_never_increases [OF tr] m tr l show ?thesis
    by (intro exI [of _ tr]) simp
qed

section \<open>The strict prune test\<close>

text \<open>
  A run that ends with the bound it started with has evicted nothing: every Candidate of
  the set it started with is in the set it returns.
\<close>

lemma minimize_keeps_stored:
  "minimize ops n f x y threshold s = Some s' \<Longrightarrow> min_ub s' = min_ub s
   \<Longrightarrow> set (ml s) \<subseteq> set (ml s')"
proof (induction n arbitrary: x y s s')
  case 0
  show ?case
  proof (cases "min_ub s < Fin (left (f x y))")
    case True
    with "0.prems" show ?thesis by (simp add: minimize_pruned)
  next
    case np: False
    have "\<not> Fin (right (f x y)) < min_ub s"
    proof
      assume lt: "Fin (right (f x y)) < min_ub s"
      have "min_ub s' \<le> min_ub (tighten (f x y) s)"
      proof (cases "width ops x \<le> threshold")
        case True
        with np "0.prems" show ?thesis by (auto simp: minimize_leaf)
      next
        case False
        with np "0.prems" show ?thesis by (simp add: minimize_split_0)
      qed
      also have "\<dots> = Fin (right (f x y))" using lt by (simp add: tighten_ml)
      finally show False using lt "0.prems"(2) by simp
    qed
    then have t: "tighten (f x y) s = s" by (rule tighten_same)
    show ?thesis
    proof (cases "width ops x \<le> threshold")
      case True
      with np "0.prems" t show ?thesis by (auto simp: minimize_leaf insert_ml_set)
    next
      case False
      with np "0.prems" show ?thesis by (simp add: minimize_split_0)
    qed
  qed
next
  case (Suc k)
  show ?case
  proof (cases "min_ub s < Fin (left (f x y))")
    case True
    with Suc.prems show ?thesis by (simp add: minimize_pruned)
  next
    case np: False
    show ?thesis
    proof (cases "width ops x \<le> threshold")
      case True
      have "\<not> Fin (right (f x y)) < min_ub s"
      proof
        assume lt: "Fin (right (f x y)) < min_ub s"
        have "min_ub s' = min_ub (tighten (f x y) s)"
          using np True Suc.prems by (auto simp: minimize_leaf)
        also have "\<dots> = Fin (right (f x y))" using lt by (simp add: tighten_ml)
        finally show False using lt Suc.prems(2) by simp
      qed
      then have "tighten (f x y) s = s" by (rule tighten_same)
      with np True Suc.prems show ?thesis by (auto simp: minimize_leaf insert_ml_set)
    next
      case False
      from Suc.prems(1) np False obtain s2 s3 s4 where
        e1: "minimize ops k f (interval (left x) (mid ops x)) (interval (left y) (mid ops y))
               threshold (tighten (f x y) s) = Some s2"
        and e2: "minimize ops k f (interval (left x) (mid ops x)) (interval (mid ops y) (right y))
               threshold s2 = Some s3"
        and e3: "minimize ops k f (interval (mid ops x) (right x)) (interval (left y) (mid ops y))
               threshold s3 = Some s4"
        and e4: "minimize ops k f (interval (mid ops x) (right x)) (interval (mid ops y) (right y))
               threshold s4 = Some s'"
        by (rule minimize_split_cases)
      note d = minimize_le [OF e1] minimize_le [OF e2] minimize_le [OF e3] minimize_le [OF e4]
        tighten_le [of "f x y" s]
      from d Suc.prems(2) have b1: "min_ub (tighten (f x y) s) = min_ub s" by order
      from d Suc.prems(2) have b2: "min_ub s2 = min_ub (tighten (f x y) s)" by order
      from d Suc.prems(2) have b3: "min_ub s3 = min_ub s2" by order
      from d Suc.prems(2) have b4: "min_ub s4 = min_ub s3" by order
      from d Suc.prems(2) have b5: "min_ub s' = min_ub s4" by order
      have "\<not> Fin (right (f x y)) < min_ub s"
      proof
        assume lt: "Fin (right (f x y)) < min_ub s"
        then have "min_ub (tighten (f x y) s) = Fin (right (f x y))" by (simp add: tighten_ml)
        with b1 lt show False by simp
      qed
      then have t: "tighten (f x y) s = s" by (rule tighten_same)
      from Suc.IH [OF e1 b2] Suc.IH [OF e2 b3] Suc.IH [OF e3 b4] Suc.IH [OF e4 b5] t
      show ?thesis by auto
    qed
  qed
qed

text \<open>
  C10, as first stated, ends: Candidates whose lower bound exactly attains the running
  bound survive in the set. The eviction that follows a tightening removes every entry
  whose \<open>lb\<close> is at least the new bound, the entries equal to it included. Here the
  enclosure is \<open>[3, 5]\<close> on the boxes left of \<open>x = 1\<close> and \<open>[3, 3]\<close> elsewhere: the
  run stores two Candidates with \<open>lb = 3\<close> under the bound 5, then the bound becomes 3
  and both are evicted; the Candidate \<open>([0, 1], [0, 1], 3, 5)\<close>, whose \<open>lb\<close> is the
  bound at the end, is not in the set the run returns.
\<close>

theorem evicted_at_equal_bound_counterexample:
  "minimize_trace exact 1 loose_left (interval 0 2) (interval 0 2) 1 initial_state
     = Some [\<lparr>min_ub = Fin 5, ml = []\<rparr>,
             \<lparr>min_ub = Fin 5, ml = [minimizer (interval 0 1) (interval 0 1) 3 5]\<rparr>,
             \<lparr>min_ub = Fin 5,
                ml = [minimizer (interval 0 1) (interval 0 1) 3 5,
                      minimizer (interval 0 1) (interval 1 2) 3 5]\<rparr>,
             \<lparr>min_ub = Fin 3, ml = []\<rparr>,
             \<lparr>min_ub = Fin 3, ml = [minimizer (interval 1 2) (interval 0 1) 3 3]\<rparr>,
             \<lparr>min_ub = Fin 3,
                ml = [minimizer (interval 1 2) (interval 0 1) 3 3,
                      minimizer (interval 1 2) (interval 1 2) 3 3]\<rparr>]
   \<and> minimize exact 1 loose_left (interval 0 2) (interval 0 2) 1 initial_state
     = Some \<lparr>min_ub = Fin 3,
          ml = [minimizer (interval 1 2) (interval 0 1) 3 3,
                minimizer (interval 1 2) (interval 1 2) 3 3]\<rparr>
   \<and> Fin (m_lb (minimizer (interval 0 1) (interval 0 1) 3 5)) = Fin 3
   \<and> minimizer (interval 0 1) (interval 0 1) 3 5
        \<notin> set [minimizer (interval 1 2) (interval 0 1) 3 3,
                 minimizer (interval 1 2) (interval 1 2) 3 3]"
  by code_simp

text \<open>
  C10, amended. The prune test is strict. A call of \<open>minimize\<close> on any box, narrow or
  not, whose enclosure is a valid interval with its left endpoint equal to the bound is not
  pruned and does not tighten: on a narrow box it returns the state it was given with the
  Candidate of the box inserted, whose \<open>lb\<close> is equal to the bound, so that the strict
  invariant fails there; on a wider box it is the sequence of its four recursive calls,
  started from the state it was given, and it does not return when the limit on the
  recursion is 0. What every run keeps, for an objective with valid enclosures, is the
  non-strict invariant in the state it returns. A stored Candidate, one whose \<open>lb\<close> is
  equal to the bound included, stays in the set as long as the bound is not lowered: every
  Candidate of the starting set is in the set that a run returns with the bound unchanged.
\<close>

theorem prune_strict_keeps_equal:
  "(valid (f x y) \<and> min_ub s = Fin (left (f x y)) \<longrightarrow>
      minimize ops n f x y threshold s =
        (if width ops x \<le> threshold
         then Some (s\<lparr>ml := insert_ml (minimizer x y (left (f x y)) (right (f x y))) (ml s)\<rparr>)
         else (case n of
                 0 \<Rightarrow> None
               | Suc k \<Rightarrow>
                   Option.bind (minimize ops k f (interval (left x) (mid ops x))
                     (interval (left y) (mid ops y)) threshold s) (\<lambda>s2.
                   Option.bind (minimize ops k f (interval (left x) (mid ops x))
                     (interval (mid ops y) (right y)) threshold s2) (\<lambda>s3.
                   Option.bind (minimize ops k f (interval (mid ops x) (right x))
                     (interval (left y) (mid ops y)) threshold s3) (\<lambda>s4.
                   minimize ops k f (interval (mid ops x) (right x))
                     (interval (mid ops y) (right y)) threshold s4)))))
      \<and> \<not> below_bound
            (s\<lparr>ml := insert_ml (minimizer x y (left (f x y)) (right (f x y))) (ml s)\<rparr>))
   \<and> (valid_fun f \<and> mid_inside ops \<and> valid x \<and> valid y \<and> within_bound s \<longrightarrow>
        (\<forall>s'. minimize ops n f x y threshold s = Some s' \<longrightarrow> within_bound s'))
   \<and> (\<forall>s'. minimize ops n f x y threshold s = Some s' \<and> min_ub s' = min_ub s
          \<longrightarrow> set (ml s) \<subseteq> set (ml s'))"
proof -
  have a: "minimize ops n f x y threshold s =
        (if width ops x \<le> threshold
         then Some (s\<lparr>ml := insert_ml (minimizer x y (left (f x y)) (right (f x y))) (ml s)\<rparr>)
         else (case n of
                 0 \<Rightarrow> None
               | Suc k \<Rightarrow>
                   Option.bind (minimize ops k f (interval (left x) (mid ops x))
                     (interval (left y) (mid ops y)) threshold s) (\<lambda>s2.
                   Option.bind (minimize ops k f (interval (left x) (mid ops x))
                     (interval (mid ops y) (right y)) threshold s2) (\<lambda>s3.
                   Option.bind (minimize ops k f (interval (mid ops x) (right x))
                     (interval (left y) (mid ops y)) threshold s3) (\<lambda>s4.
                   minimize ops k f (interval (mid ops x) (right x))
                     (interval (mid ops y) (right y)) threshold s4)))))"
    and b: "\<not> below_bound
            (s\<lparr>ml := insert_ml (minimizer x y (left (f x y)) (right (f x y))) (ml s)\<rparr>)"
    if v: "valid (f x y)" and eq: "min_ub s = Fin (left (f x y))"
  proof -
    have np: "\<not> min_ub s < Fin (left (f x y))" by (simp add: eq)
    have "\<not> Fin (right (f x y)) < min_ub s" using v by (simp add: eq valid_def)
    then have t: "tighten (f x y) s = s" by (rule tighten_same)
    show "minimize ops n f x y threshold s =
        (if width ops x \<le> threshold
         then Some (s\<lparr>ml := insert_ml (minimizer x y (left (f x y)) (right (f x y))) (ml s)\<rparr>)
         else (case n of
                 0 \<Rightarrow> None
               | Suc k \<Rightarrow>
                   Option.bind (minimize ops k f (interval (left x) (mid ops x))
                     (interval (left y) (mid ops y)) threshold s) (\<lambda>s2.
                   Option.bind (minimize ops k f (interval (left x) (mid ops x))
                     (interval (mid ops y) (right y)) threshold s2) (\<lambda>s3.
                   Option.bind (minimize ops k f (interval (mid ops x) (right x))
                     (interval (left y) (mid ops y)) threshold s3) (\<lambda>s4.
                   minimize ops k f (interval (mid ops x) (right x))
                     (interval (mid ops y) (right y)) threshold s4)))))"
    proof (cases "width ops x \<le> threshold")
      case True
      then show ?thesis
        by (simp add: minimize_leaf [where f = f and x = x and y = y, OF np True] t)
    next
      case False
      show ?thesis
      proof (cases n)
        case 0
        with False show ?thesis
          by (simp add: minimize_split_0 [where f = f and x = x and y = y, OF np False])
      next
        case (Suc k)
        with False show ?thesis
          by (simp add: minimize_split_Suc [where f = f and x = x and y = y, OF np False] t)
      qed
    qed
    have "minimizer x y (left (f x y)) (right (f x y))
        \<in> set (insert_ml (minimizer x y (left (f x y)) (right (f x y))) (ml s))"
      by (simp add: insert_ml_set)
    then show "\<not> below_bound
            (s\<lparr>ml := insert_ml (minimizer x y (left (f x y)) (right (f x y))) (ml s)\<rparr>)"
      unfolding below_bound_def list_all_iff using eq by force
  qed
  have c: "within_bound s'"
    if "valid_fun f" "mid_inside ops" "valid x" "valid y" "within_bound s"
      and "minimize ops n f x y threshold s = Some s'" for s'
    by (rule minimize_within [OF that(1) that(5) that(3,4) that(2) that(6)])
  have d: "set (ml s) \<subseteq> set (ml s')"
    if "minimize ops n f x y threshold s = Some s'" "min_ub s' = min_ub s" for s'
    using that by (rule minimize_keeps_stored)
  from a b c d show ?thesis by blast
qed

theorem prune_strict_keeps_equal_witness:
  "valid (const_fun 1 (interval 0 4) (interval 0 4))
   \<and> min_ub \<lparr>min_ub = Fin 1, ml = [minimizer (interval 8 9) (interval 8 9) 1 2]\<rparr>
       = Fin (left (const_fun 1 (interval 0 4) (interval 0 4)))
   \<and> valid_fun (const_fun 1) \<and> mid_inside exact \<and> valid (interval 0 4)
   \<and> within_bound \<lparr>min_ub = Fin 1, ml = [minimizer (interval 8 9) (interval 8 9) 1 2]\<rparr>
   \<and> \<not> width exact (interval 0 4) \<le> 1
   \<and> (\<exists>s'. minimize exact 2 (const_fun 1) (interval 0 4) (interval 0 4) 1
               \<lparr>min_ub = Fin 1, ml = [minimizer (interval 8 9) (interval 8 9) 1 2]\<rparr> = Some s'
          \<and> min_ub s' = Fin 1 \<and> length (ml s') = 17 \<and> within_bound s'
          \<and> minimizer (interval 8 9) (interval 8 9) 1 2 \<in> set (ml s'))
   \<and> width exact (interval 0 1) \<le> 1
   \<and> minimize exact 0 (const_fun 1) (interval 0 1) (interval 0 1) 1 \<lparr>min_ub = Fin 1, ml = []\<rparr>
       = Some \<lparr>min_ub = Fin 1, ml = [minimizer (interval 0 1) (interval 0 1) 1 1]\<rparr>
   \<and> \<not> below_bound \<lparr>min_ub = Fin 1, ml = [minimizer (interval 0 1) (interval 0 1) 1 1]\<rparr>"
proof -
  let ?S = "\<lparr>min_ub = Fin 1, ml = [minimizer (interval 8 9) (interval 8 9) 1 2]\<rparr>"
  have h1: "valid (const_fun 1 (interval 0 4) (interval 0 4))"
    and h1': "valid (const_fun 1 (interval 0 1) (interval 0 1))"
    by (simp_all add: valid_def const_fun_def)
  have h2: "min_ub ?S = Fin (left (const_fun 1 (interval 0 4) (interval 0 4)))"
    and h2': "min_ub \<lparr>min_ub = Fin 1, ml = []\<rparr>
       = Fin (left (const_fun 1 (interval 0 1) (interval 0 1)))"
    by (simp_all add: const_fun_def)
  have h3: "valid_fun (const_fun 1)" by (rule valid_fun_const)
  have h4: "valid (interval 0 4)" by (simp add: valid_def)
  have h5: "within_bound ?S" by (simp add: within_bound_def)
  have w4: "\<not> width exact (interval 0 4) \<le> 1" and w1: "width exact (interval 0 1) \<le> 1"
    by (simp_all add: exact_def)
  have "map_option (\<lambda>s'. (min_ub s', length (ml s')))
      (minimize exact 2 (const_fun 1) (interval 0 4) (interval 0 4) 1 ?S) = Some (Fin 1, 17)"
    by code_simp
  then obtain s' where
    r: "minimize exact 2 (const_fun 1) (interval 0 4) (interval 0 4) 1 ?S = Some s'"
    and b: "min_ub s' = Fin 1" and l: "length (ml s') = 17"
    by auto
  note T = prune_strict_keeps_equal [where ops = exact and n = 2 and f = "const_fun 1"
      and x = "interval 0 4" and y = "interval 0 4" and threshold = 1 and s = ?S]
  from T h3 mid_inside_exact h4 h5 r have i: "within_bound s'" by blast
  from T r b have "set (ml ?S) \<subseteq> set (ml s')" by simp
  then have k: "minimizer (interval 8 9) (interval 8 9) 1 2 \<in> set (ml s')" by simp
  note T0 = prune_strict_keeps_equal [where ops = exact and n = 0 and f = "const_fun 1"
      and x = "interval 0 1" and y = "interval 0 1" and threshold = 1
      and s = "\<lparr>min_ub = Fin 1, ml = []\<rparr>"]
  from T0 h1' h2' have "minimize exact 0 (const_fun 1) (interval 0 1) (interval 0 1) 1
        \<lparr>min_ub = Fin 1, ml = []\<rparr>
      = (if width exact (interval 0 1) \<le> 1
         then Some (\<lparr>min_ub = Fin 1, ml = []\<rparr>\<lparr>ml := insert_ml
           (minimizer (interval 0 1) (interval 0 1)
             (left (const_fun 1 (interval 0 1) (interval 0 1)))
             (right (const_fun 1 (interval 0 1) (interval 0 1))))
           (ml \<lparr>min_ub = Fin 1, ml = []\<rparr>)\<rparr>)
         else None)"
    by simp
  with w1 have m: "minimize exact 0 (const_fun 1) (interval 0 1) (interval 0 1) 1
        \<lparr>min_ub = Fin 1, ml = []\<rparr>
      = Some \<lparr>min_ub = Fin 1, ml = [minimizer (interval 0 1) (interval 0 1) 1 1]\<rparr>"
    by (simp add: const_fun_def)
  from T0 h1' h2' have "\<not> below_bound (\<lparr>min_ub = Fin 1, ml = []\<rparr>\<lparr>ml := insert_ml
           (minimizer (interval 0 1) (interval 0 1)
             (left (const_fun 1 (interval 0 1) (interval 0 1)))
             (right (const_fun 1 (interval 0 1) (interval 0 1))))
           (ml \<lparr>min_ub = Fin 1, ml = []\<rparr>)\<rparr>)"
    by blast
  then have nb: "\<not> below_bound
      \<lparr>min_ub = Fin 1, ml = [minimizer (interval 0 1) (interval 0 1) 1 1]\<rparr>"
    by (simp add: const_fun_def)
  from h1 h2 h3 mid_inside_exact h4 h5 w4 r b l i k w1 m nb show ?thesis by blast
qed

section \<open>Termination\<close>

text \<open>
  When each half of an interval has half its width, as the comments of lines 6, 7, 43 and
  44 say, a call on any box returns under the recursion limit
  \<open>ceil (log2 (width x / threshold))\<close>, read as 0 when it is negative, and returns the
  same state under every larger limit. The operations without rounding are of that kind.
\<close>

lemma halves_width_exact: "halves_width exact"
  by (simp add: halves_width_def exact_def field_simps)

lemma width_halves:
  assumes "halves_width ops"
  shows "width ops (interval (left x) (mid ops x)) = width ops x / 2"
    "width ops (interval (mid ops x) (right x)) = width ops x / 2"
  using assms by (simp_all add: halves_width_def)

lemma minimize_within_depth:
  assumes h: "halves_width ops"
  shows "width ops x \<le> threshold * 2 ^ d \<Longrightarrow> \<exists>s'. minimize ops d f x y threshold s = Some s'"
proof (induction d arbitrary: x y s)
  case 0
  show ?case
  proof (cases "min_ub s < Fin (left (f x y))")
    case True
    then show ?thesis by (simp add: minimize_pruned)
  next
    case False
    with 0 show ?thesis by (simp add: minimize_leaf)
  qed
next
  case (Suc d)
  show ?case
  proof (cases "min_ub s < Fin (left (f x y))")
    case True
    then show ?thesis by (simp add: minimize_pruned)
  next
    case np: False
    show ?thesis
    proof (cases "width ops x \<le> threshold")
      case True
      with np show ?thesis by (simp add: minimize_leaf)
    next
      case False
      have l: "width ops (interval (left x) (mid ops x)) \<le> threshold * 2 ^ d"
        and r: "width ops (interval (mid ops x) (right x)) \<le> threshold * 2 ^ d"
        using Suc.prems by (simp_all add: width_halves [OF h])
      from Suc.IH [OF l] obtain s2 where
        e1: "minimize ops d f (interval (left x) (mid ops x)) (interval (left y) (mid ops y)) threshold
               (tighten (f x y) s) = Some s2" by blast
      from Suc.IH [OF l] obtain s3 where
        e2: "minimize ops d f (interval (left x) (mid ops x)) (interval (mid ops y) (right y)) threshold s2
               = Some s3" by blast
      from Suc.IH [OF r] obtain s4 where
        e3: "minimize ops d f (interval (mid ops x) (right x)) (interval (left y) (mid ops y)) threshold s3
               = Some s4" by blast
      from Suc.IH [OF r] obtain s5 where
        e4: "minimize ops d f (interval (mid ops x) (right x)) (interval (mid ops y) (right y)) threshold s4
               = Some s5" by blast
      show ?thesis
        unfolding minimize_split_Suc [where f = f and x = x and y = y, OF np False]
        by (simp add: e1 e2 e3 e4)
    qed
  qed
qed

lemma minimize_Suc_limit:
  "minimize ops n f x y threshold s = Some s' \<Longrightarrow> minimize ops (Suc n) f x y threshold s = Some s'"
proof (induction n arbitrary: x y s s')
  case 0
  show ?case
  proof (cases "min_ub s < Fin (left (f x y))")
    case True
    with 0 show ?thesis by (simp add: minimize_pruned)
  next
    case np: False
    show ?thesis
    proof (cases "width ops x \<le> threshold")
      case True
      with np 0 show ?thesis by (simp add: minimize_leaf)
    next
      case False
      with np 0 show ?thesis by (simp add: minimize_split_0)
    qed
  qed
next
  case (Suc k)
  show ?case
  proof (cases "min_ub s < Fin (left (f x y))")
    case True
    with Suc.prems show ?thesis by (simp add: minimize_pruned)
  next
    case np: False
    show ?thesis
    proof (cases "width ops x \<le> threshold")
      case True
      with np Suc.prems show ?thesis by (simp add: minimize_leaf)
    next
      case False
      from Suc.prems obtain s2 s3 s4 where
        e1: "minimize ops k f (interval (left x) (mid ops x)) (interval (left y) (mid ops y)) threshold
               (tighten (f x y) s) = Some s2"
        and e2: "minimize ops k f (interval (left x) (mid ops x)) (interval (mid ops y) (right y)) threshold s2
               = Some s3"
        and e3: "minimize ops k f (interval (mid ops x) (right x)) (interval (left y) (mid ops y)) threshold s3
               = Some s4"
        and e4: "minimize ops k f (interval (mid ops x) (right x)) (interval (mid ops y) (right y)) threshold s4
               = Some s'"
        unfolding minimize_split_Suc [where f = f and x = x and y = y, OF np False]
        by (auto simp: bind_eq_Some_conv)
      show ?thesis
        unfolding minimize_split_Suc [where f = f and x = x and y = y and k = "Suc k", OF np False]
        by (simp add: Suc.IH [OF e1] Suc.IH [OF e2] Suc.IH [OF e3] Suc.IH [OF e4])
    qed
  qed
qed

lemma minimize_more_limit:
  "minimize ops n f x y threshold s = Some s' \<Longrightarrow> n \<le> m \<Longrightarrow> minimize ops m f x y threshold s = Some s'"
  by (induction m) (auto simp: le_Suc_eq minimize_Suc_limit)

lemma width_le_pow_ceiling_log:
  fixes w t :: real
  assumes "0 < t"
  shows "w \<le> t * 2 ^ nat \<lceil>log 2 (w / t)\<rceil>"
proof (cases "w \<le> t")
  case True
  have "(1::real) \<le> 2 ^ nat \<lceil>log 2 (w / t)\<rceil>" by simp
  then have "t * 1 \<le> t * 2 ^ nat \<lceil>log 2 (w / t)\<rceil>"
    using assms by (intro mult_left_mono) simp_all
  with True show ?thesis by simp
next
  case False
  define D where "D = nat \<lceil>log 2 (w / t)\<rceil>"
  from False have q: "1 < w / t" using assms by simp
  then have "0 < log 2 (w / t)" by simp
  then have "log 2 (w / t) \<le> real D" unfolding D_def by linarith
  then have "2 powr log 2 (w / t) \<le> 2 powr real D"
    by (simp only: powr_le_cancel_iff [of 2] one_less_numeral_iff semiring_norm)
  moreover have "2 powr log 2 (w / t) = w / t" using q by simp
  moreover have "(2::real) powr real D = 2 ^ D" by (simp add: powr_realpow)
  ultimately have "w / t \<le> 2 ^ D" by simp
  then show ?thesis using assms unfolding D_def by (simp add: field_simps)
qed

lemma minimize_terminates_when_halving:
  assumes "halves_width ops" and "0 < threshold"
  shows "\<exists>s'. \<forall>n. nat \<lceil>log 2 (width ops x / threshold)\<rceil> \<le> n
           \<longrightarrow> minimize ops n f x y threshold s = Some s'"
proof -
  from minimize_within_depth [OF assms(1) width_le_pow_ceiling_log [OF assms(2)]]
  obtain s' where
    "minimize ops (nat \<lceil>log 2 (width ops x / threshold)\<rceil>) f x y threshold s = Some s'"
    by blast
  then have "\<forall>n. nat \<lceil>log 2 (width ops x / threshold)\<rceil> \<le> n
           \<longrightarrow> minimize ops n f x y threshold s = Some s'"
    by (blast intro: minimize_more_limit)
  then show ?thesis ..
qed

lemma minimize_exact_example:
  "nat \<lceil>log 2 (width exact (interval 0 4) / 1)\<rceil> = 2
   \<and> (\<exists>s'. minimize exact 2 (const_fun 0) (interval 0 4) (interval 0 4) 1 initial_state = Some s')
   \<and> minimize exact 1 (const_fun 0) (interval 0 4) (interval 0 4) 1 initial_state = None"
proof -
  have h: "(0::real) < 1" by simp
  have "log 2 4 = 2" using log2_of_power_eq [of 4 2] by simp
  then have d: "nat \<lceil>log 2 (width exact (interval 0 4) / 1)\<rceil> = 2" by (simp add: exact_def)
  have n: "minimize exact 1 (const_fun 0) (interval 0 4) (interval 0 4) 1 initial_state = None"
    by code_simp
  from minimize_terminates_when_halving [OF halves_width_exact h, where x = "interval 0 4"
      and f = "const_fun 0" and y = "interval 0 4" and s = initial_state]
  have "\<exists>s'. minimize exact 2 (const_fun 0) (interval 0 4) (interval 0 4) 1 initial_state = Some s'"
    unfolding d by blast
  with d n show ?thesis by blast
qed

text \<open>
  Rounding to the nearest \<open>double\<close>: the numbers with a significand of 53 bits are left as
  they are, and a number half way between two of them goes to the one with the even
  significand.
\<close>

lemma round_even_int: "round_even (of_int z) = z"
  by (simp add: round_even_def)

lemma round_even_tie: "even z \<Longrightarrow> round_even (of_int z + 1 / 2) = z"
proof -
  have "\<lfloor>of_int z + (1::real) / 2\<rfloor> = z" by linarith
  then show "even z \<Longrightarrow> round_even (of_int z + 1 / 2) = z"
    by (simp add: round_even_def Let_def)
qed

lemma floor_log2:
  assumes "2 powr of_int m \<le> a" and "a < 2 powr of_int (m + 1)"
  shows "\<lfloor>log 2 a\<rfloor> = m"
proof -
  have p: "0 < a" using assms(1) by (rule less_le_trans [rotated]) simp
  show ?thesis
    using assms p by (simp add: floor_log_eq_powr_iff)
qed

lemma to_double_exact:
  assumes "2 powr of_int m \<le> \<bar>r\<bar>" and "\<bar>r\<bar> < 2 powr of_int (m + 1)" and "- 1022 \<le> m"
    and "r = of_int z * 2 powr of_int (m - 52)"
  shows "to_double r = r"
proof -
  have n: "r \<noteq> 0" using assms(1) by (auto simp: not_le)
  have e: "max (\<lfloor>log 2 \<bar>r\<bar>\<rfloor> - 52) (- 1074) = m - 52"
    using floor_log2 [OF assms(1,2)] assms(3) by simp
  have q: "r / 2 powr of_int (m - 52) = of_int z"
    by (subst assms(4)) simp
  show ?thesis
    unfolding to_double_def Let_def e q round_even_int using n assms(4) by simp
qed

lemma to_double_tie:
  assumes "2 powr of_int m \<le> \<bar>r\<bar>" and "\<bar>r\<bar> < 2 powr of_int (m + 1)" and "- 1022 \<le> m"
    and "r = (of_int z + 1 / 2) * 2 powr of_int (m - 52)" and "even z"
  shows "to_double r = of_int z * 2 powr of_int (m - 52)"
proof -
  have n: "r \<noteq> 0" using assms(1) by (auto simp: not_le)
  have e: "max (\<lfloor>log 2 \<bar>r\<bar>\<rfloor> - 52) (- 1074) = m - 52"
    using floor_log2 [OF assms(1,2)] assms(3) by simp
  have q: "r / 2 powr of_int (m - 52) = of_int z + 1 / 2"
    by (subst assms(4)) simp
  show ?thesis
    unfolding to_double_def Let_def e q round_even_tie [OF assms(5)] using n by simp
qed

lemma to_double_0: "to_double 0 = 0"
  by (simp add: to_double_def)

lemma powr_neg_nat: "2 powr of_int (- int k) = 1 / (2::real) ^ k"
  by (simp add: powr_minus powr_realpow divide_inverse)

lemma powr_neg_52: "2 powr of_int (0 - 52) = 1 / (2::real) ^ 52"
  using powr_neg_nat [of 52] by simp

lemma powr_diff_nat: "2 powr of_int (- int k - 52) = 1 / (2::real) ^ (k + 52)"
proof -
  have "- int k - 52 = - int (k + 52)" by simp
  then show ?thesis by (simp only: powr_neg_nat)
qed

lemma to_double_pow: 
  assumes "k \<le> 1022"
  shows "to_double (1 / 2 ^ k) = 1 / 2 ^ k"
proof (rule to_double_exact [where m = "- int k" and z = "2 ^ 52"])
  show "2 powr of_int (- int k) \<le> \<bar>1 / (2::real) ^ k\<bar>"
    by (simp only: powr_neg_nat)
  show "\<bar>1 / (2::real) ^ k\<bar> < 2 powr of_int (- int k + 1)"
  proof (cases k)
    case 0
    then show ?thesis by simp
  next
    case (Suc j)
    have "- int k + 1 = - int j" using Suc by simp
    then have "2 powr of_int (- int k + 1) = 1 / (2::real) ^ j"
      by (simp only: powr_neg_nat)
    then show ?thesis using Suc by (simp add: field_simps)
  qed
  show "- 1022 \<le> - int k" using assms by simp
  show "1 / (2::real) ^ k = of_int (2 ^ 52) * 2 powr of_int (- int k - 52)"
    unfolding powr_diff_nat by (simp add: power_add)
qed

lemma to_double_one_plus:
  assumes "k \<le> 51"
  shows "to_double (1 + 1 / 2 ^ Suc k) = 1 + 1 / 2 ^ Suc k"
proof (rule to_double_exact [where m = 0 and z = "2 ^ 52 + 2 ^ (51 - k)"])
  have "(1::real) \<le> 2 ^ k" by (rule one_le_power) simp
  then have "(1::real) < 2 * 2 ^ k" by linarith
  then have l: "1 / (2::real) ^ Suc k < 1" by (simp add: field_simps)
  show "2 powr of_int 0 \<le> \<bar>1 + 1 / (2::real) ^ Suc k\<bar>" by simp
  show "\<bar>1 + 1 / (2::real) ^ Suc k\<bar> < 2 powr of_int (0 + 1)" using l by simp
  show "- 1022 \<le> (0::int)" by simp
  have e: "(2::real) ^ 52 = 2 ^ (51 - k) * 2 ^ Suc k"
    using assms by (simp flip: power_add)
  have "(2::real) ^ (51 - k) / 2 ^ 52 = 2 ^ (51 - k) / (2 ^ (51 - k) * 2 ^ Suc k)"
    by (simp only: e)
  also have "\<dots> = 1 / 2 ^ Suc k" by simp
  finally have d: "(2::real) ^ (51 - k) / 2 ^ 52 = 1 / 2 ^ Suc k" .
  have "of_int (2 ^ 52 + 2 ^ (51 - k)) * (1 / (2::real) ^ 52) = 1 + 2 ^ (51 - k) / 2 ^ 52"
    by (simp add: field_simps)
  then show "1 + 1 / (2::real) ^ Suc k = of_int (2 ^ 52 + 2 ^ (51 - k)) * 2 powr of_int (0 - 52)"
    by (simp only: powr_neg_52 d)
qed

lemma to_double_one_half_ulp: "to_double (1 + 1 / 2 ^ 53) = 1"
proof -
  have "to_double (1 + 1 / 2 ^ 53) = of_int (2 ^ 52) * 2 powr of_int (0 - 52)"
  proof (rule to_double_tie)
    show "2 powr of_int 0 \<le> \<bar>1 + 1 / (2::real) ^ 53\<bar>" by simp
    show "\<bar>1 + 1 / (2::real) ^ 53\<bar> < 2 powr of_int (0 + 1)" by simp
    show "- 1022 \<le> (0::int)" by simp
    show "1 + 1 / (2::real) ^ 53 = (of_int (2 ^ 52) + 1 / 2) * 2 powr of_int (0 - 52)"
      unfolding powr_neg_52 by simp
    show "even ((2::int) ^ 52)" by simp
  qed
  also have "\<dots> = 1" unfolding powr_neg_52 by simp
  finally show ?thesis .
qed

lemma to_double_neg_two_plus:
  assumes "k \<le> 51"
  shows "to_double (- 2 + 1 / 2 ^ Suc k) = - 2 + 1 / 2 ^ Suc k"
proof (rule to_double_exact [where m = 0 and z = "- (2 ^ 53) + 2 ^ (51 - k)"])
  have "(1::real) \<le> 2 ^ k" by (rule one_le_power) simp
  then have "(1::real) < 2 * 2 ^ k" by linarith
  then have l: "1 / (2::real) ^ Suc k < 1" "0 < 1 / (2::real) ^ Suc k"
    by (simp_all add: field_simps)
  then have a: "\<bar>- 2 + 1 / (2::real) ^ Suc k\<bar> = 2 - 1 / 2 ^ Suc k" by linarith
  show "2 powr of_int 0 \<le> \<bar>- 2 + 1 / (2::real) ^ Suc k\<bar>" unfolding a using l by simp
  show "\<bar>- 2 + 1 / (2::real) ^ Suc k\<bar> < 2 powr of_int (0 + 1)" unfolding a using l by simp
  show "- 1022 \<le> (0::int)" by simp
  have e: "(2::real) ^ 52 = 2 ^ (51 - k) * 2 ^ Suc k"
    using assms by (simp flip: power_add)
  have "(2::real) ^ (51 - k) / 2 ^ 52 = 2 ^ (51 - k) / (2 ^ (51 - k) * 2 ^ Suc k)"
    by (simp only: e)
  also have "\<dots> = 1 / 2 ^ Suc k" by simp
  finally have d: "(2::real) ^ (51 - k) / 2 ^ 52 = 1 / 2 ^ Suc k" .
  have "of_int (- (2 ^ 53) + 2 ^ (51 - k)) * (1 / (2::real) ^ 52) = - 2 + 2 ^ (51 - k) / 2 ^ 52"
    by (simp add: field_simps)
  then show "- 2 + 1 / (2::real) ^ Suc k
      = of_int (- (2 ^ 53) + 2 ^ (51 - k)) * 2 powr of_int (0 - 52)"
    by (simp only: powr_neg_52 d)
qed

lemma to_double_neg_two_half_ulp: "to_double (- 2 + 1 / 2 ^ 53) = - 2"
proof -
  have "to_double (- 2 + 1 / 2 ^ 53) = of_int (- (2 ^ 53)) * 2 powr of_int (0 - 52)"
  proof (rule to_double_tie)
    show "2 powr of_int 0 \<le> \<bar>- 2 + 1 / (2::real) ^ 53\<bar>" by simp
    show "\<bar>- 2 + 1 / (2::real) ^ 53\<bar> < 2 powr of_int (0 + 1)" by simp
    show "- 1022 \<le> (0::int)" by simp
    show "- 2 + 1 / (2::real) ^ 53 = (of_int (- (2 ^ 53)) + 1 / 2) * 2 powr of_int (0 - 52)"
      unfolding powr_neg_52 by simp
    show "even (- ((2::int) ^ 53))" by simp
  qed
  also have "\<dots> = - 2" unfolding powr_neg_52 by simp
  finally show ?thesis .
qed

lemma to_double_neg_one: "to_double (- 1) = - 1"
proof (rule to_double_exact [where m = 0 and z = "- (2 ^ 52)"])
  show "(- 1::real) = of_int (- (2 ^ 52)) * 2 powr of_int (0 - 52)"
    unfolding powr_neg_52 by simp
qed simp_all

lemma to_double_two: "to_double 2 = 2"
proof (rule to_double_exact [where m = 1 and z = "2 ^ 52"])
  have "(1::int) - 52 = - int 51" by simp
  then have p: "(2::real) powr of_int (1 - 52) = 1 / 2 ^ 51"
    by (simp only: powr_neg_nat)
  show "(2::real) = of_int (2 ^ 52) * 2 powr of_int (1 - 52)"
    unfolding p by simp
qed simp_all

lemma to_double_four: "to_double 4 = 4"
proof (rule to_double_exact [where m = 2 and z = "2 ^ 52"])
  have "(2::real) powr of_int 2 = 4" "(2::real) powr of_int 3 = 8"
    by (simp_all add: powr_int)
  then show "2 powr of_int 2 \<le> \<bar>4::real\<bar>" "\<bar>4::real\<bar> < 2 powr of_int (2 + 1)" by simp_all
  have "(2::int) - 52 = - int 50" by simp
  then have p: "(2::real) powr of_int (2 - 52) = 1 / 2 ^ 50"
    by (simp only: powr_neg_nat)
  show "(4::real) = of_int (2 ^ 52) * 2 powr of_int (2 - 52)"
    unfolding p by simp
qed simp_all

text \<open>
  With a constant objective no box is pruned, and the bound stays at the constant or above.
\<close>

lemma tighten_const_lower: "Fin c \<le> min_ub s \<Longrightarrow> Fin c \<le> min_ub (tighten (const_fun c x y) s)"
  by (simp add: tighten_min_ub const_fun_def)

lemma const_not_pruned: "Fin c \<le> min_ub s \<Longrightarrow> \<not> min_ub s < Fin (left (const_fun c x y))"
  by (simp add: const_fun_def not_less)

lemma minimize_const_lower:
  "Fin c \<le> min_ub s \<Longrightarrow> minimize ops n (const_fun c) x y threshold s = Some s'
    \<Longrightarrow> Fin c \<le> min_ub s'"
proof (induction n arbitrary: x y s s')
  case 0
  show ?case
  proof (cases "width ops x \<le> threshold")
    case True
    with 0 const_not_pruned [OF "0.prems"(1)] tighten_const_lower [OF "0.prems"(1)]
    show ?thesis by (auto simp: minimize_leaf)
  next
    case False
    with 0 const_not_pruned [OF "0.prems"(1)] show ?thesis by (simp add: minimize_split_0)
  qed
next
  case (Suc k)
  note np = const_not_pruned [OF Suc.prems(1), of x y]
  show ?case
  proof (cases "width ops x \<le> threshold")
    case True
    with Suc.prems np tighten_const_lower [OF Suc.prems(1)]
    show ?thesis by (auto simp: minimize_leaf)
  next
    case False
    from Suc.prems(2) np False obtain s2 s3 s4 where
      e1: "minimize ops k (const_fun c) (interval (left x) (mid ops x)) (interval (left y) (mid ops y))
             threshold (tighten (const_fun c x y) s) = Some s2"
      and e2: "minimize ops k (const_fun c) (interval (left x) (mid ops x))
             (interval (mid ops y) (right y)) threshold s2 = Some s3"
      and e3: "minimize ops k (const_fun c) (interval (mid ops x) (right x))
             (interval (left y) (mid ops y)) threshold s3 = Some s4"
      and e4: "minimize ops k (const_fun c) (interval (mid ops x) (right x))
             (interval (mid ops y) (right y)) threshold s4 = Some s'"
      by (rule minimize_split_cases)
    have "Fin c \<le> min_ub s2"
      by (rule Suc.IH [OF tighten_const_lower [OF Suc.prems(1)] e1])
    then have "Fin c \<le> min_ub s3" by (rule Suc.IH [OF _ e2])
    then have "Fin c \<le> min_ub s4" by (rule Suc.IH [OF _ e3])
    then show ?thesis by (rule Suc.IH [OF _ e4])
  qed
qed

text \<open>
  A box whose midpoint is its left end is its own right half: a call on it that neither
  prunes nor stops descends into the same box again, at every depth. A call that has to
  split does not return when the call on its first quadrant does not, so the same holds of
  a chain of boxes \<open>[a, a + 1 / 2 ^ k]\<close>, each the left half of the one before, that ends
  in such a box.
\<close>

lemma minimize_stuck:
  assumes m: "mid ops (interval a b) = a" and w: "\<not> width ops (interval a b) \<le> threshold"
  shows "Fin c \<le> min_ub s \<Longrightarrow> minimize ops n (const_fun c) (interval a b) y threshold s = None"
proof (induction n arbitrary: y s)
  case 0
  from const_not_pruned [OF 0] w show ?case by (rule minimize_split_0)
next
  case (Suc k)
  let ?x = "interval a b"
  note np = const_not_pruned [OF Suc.prems, of ?x y]
  let ?c1 = "minimize ops k (const_fun c) (interval (left ?x) (mid ops ?x))
      (interval (left y) (mid ops y)) threshold (tighten (const_fun c ?x y) s)"
  show ?case
  proof (cases ?c1)
    case None
    then show ?thesis
      unfolding minimize_split_Suc [where f = "const_fun c" and x = ?x and y = y, OF np w]
      by simp
  next
    case (Some s2)
    have l2: "Fin c \<le> min_ub s2"
      by (rule minimize_const_lower [OF tighten_const_lower [OF Suc.prems] Some])
    let ?c2 = "minimize ops k (const_fun c) (interval (left ?x) (mid ops ?x))
      (interval (mid ops y) (right y)) threshold s2"
    show ?thesis
    proof (cases ?c2)
      case None
      with Some show ?thesis
        unfolding minimize_split_Suc [where f = "const_fun c" and x = ?x and y = y, OF np w]
        by simp
    next
      case s3: (Some s3)
      have l3: "Fin c \<le> min_ub s3" by (rule minimize_const_lower [OF l2 s3])
      have "minimize ops k (const_fun c) (interval (mid ops ?x) (right ?x))
          (interval (left y) (mid ops y)) threshold s3 = None"
        unfolding m using Suc.IH [OF l3] by simp
      with Some s3 show ?thesis
        unfolding minimize_split_Suc [where f = "const_fun c" and x = ?x and y = y, OF np w]
        by simp
    qed
  qed
qed

lemma minimize_descend:
  assumes w: "\<not> width ops x \<le> threshold"
    and d: "\<And>n y s. Fin c \<le> min_ub s \<Longrightarrow>
      minimize ops n (const_fun c) (interval (left x) (mid ops x)) y threshold s = None"
    and s: "Fin c \<le> min_ub s"
  shows "minimize ops n (const_fun c) x y threshold s = None"
proof (cases n)
  case 0
  with const_not_pruned [OF s] w show ?thesis by (simp add: minimize_split_0)
next
  case (Suc k)
  note np = const_not_pruned [OF s, of x y]
  show ?thesis
    unfolding Suc minimize_split_Suc [where f = "const_fun c" and x = x and y = y, OF np w]
    by (simp add: d [OF tighten_const_lower [OF s]])
qed

lemma minimize_chain_no_return:
  assumes mids: "\<And>k. k < K \<Longrightarrow> mid ops (interval a (a + 1 / 2 ^ k)) = a + 1 / 2 ^ Suc k"
    and last: "mid ops (interval a (a + 1 / 2 ^ K)) = a"
    and widths: "\<And>k. k \<le> K \<Longrightarrow> width ops (interval a (a + 1 / 2 ^ k)) = 1 / 2 ^ k"
    and t: "threshold < 1 / 2 ^ K"
  shows "k \<le> K \<Longrightarrow> Fin c \<le> min_ub s \<Longrightarrow>
    minimize ops n (const_fun c) (interval a (a + 1 / 2 ^ k)) y threshold s = None"
proof (induction "K - k" arbitrary: k n y s)
  case 0
  then have k: "k = K" by simp
  have w: "\<not> width ops (interval a (a + 1 / 2 ^ K)) \<le> threshold"
    using t by (simp only: widths [OF order_refl] not_le)
  show ?case
    unfolding k by (rule minimize_stuck [OF last w "0.prems"(2)])
next
  case (Suc j)
  then have k: "k < K" and j: "j = K - Suc k" and k': "Suc k \<le> K" by simp_all
  have "(2::real) ^ k \<le> 2 ^ K"
    using Suc.prems(1) by (intro power_increasing) simp_all
  then have "(1::real) / 2 ^ K \<le> 1 / 2 ^ k"
    by (intro divide_left_mono) simp_all
  with t have "threshold < 1 / 2 ^ k" by (rule less_le_trans)
  then have w: "\<not> width ops (interval a (a + 1 / 2 ^ k)) \<le> threshold"
    by (simp only: widths [OF Suc.prems(1)] not_le)
  show ?case
  proof (rule minimize_descend [OF w _ Suc.prems(2)])
    fix n y and s :: search_state
    assume "Fin c \<le> min_ub s"
    then show "minimize ops n (const_fun c)
        (interval (left (interval a (a + 1 / 2 ^ k))) (mid ops (interval a (a + 1 / 2 ^ k))))
        y threshold s = None"
      unfolding mids [OF k] interval.sel
      by (rule Suc.hyps(1) [OF j k'])
  qed
qed

text \<open>
  In \<open>double\<close> arithmetic the midpoint of \<open>[1, 1 + 1 / 2 ^ 52]\<close> is 1, for no
  \<open>double\<close> lies between the two ends, and likewise for \<open>[-2, -2 + 1 / 2 ^ 52]\<close>. The
  width of these boxes, \<open>1 / 2 ^ 52\<close>, is not halved by the split.
\<close>

lemma mid_binary64_one_plus:
  "k \<le> 51 \<Longrightarrow> mid binary64 (interval 1 (1 + 1 / 2 ^ k)) = 1 + 1 / 2 ^ Suc k"
proof -
  assume k: "k \<le> 51"
  have "(1 + (1 + 1 / (2::real) ^ k)) / 2 = 1 + 1 / 2 ^ Suc k" by (simp add: field_simps)
  then have "mid binary64 (interval 1 (1 + 1 / 2 ^ k)) = to_double (1 + 1 / 2 ^ Suc k)"
    by (simp only: binary64_def interval_ops.sel interval.sel)
  then show ?thesis by (simp only: to_double_one_plus [OF k])
qed

lemma mid_binary64_ulp: "mid binary64 (interval 1 (1 + 1 / 2 ^ 52)) = 1"
proof -
  have "(1 + (1 + 1 / (2::real) ^ 52)) / 2 = 1 + 1 / 2 ^ 53" by simp
  then show ?thesis using to_double_one_half_ulp by (simp only: binary64_def interval_ops.sel interval.sel)
qed

lemma width_binary64_chain:
  "k \<le> 52 \<Longrightarrow> width binary64 (interval a (a + 1 / 2 ^ k)) = 1 / 2 ^ k"
  using to_double_pow [of k] by (simp add: binary64_def)

lemma minimize_binary64_no_return:
  assumes "threshold < 1 / 2 ^ 52" and "k \<le> 52" and "Fin c \<le> min_ub s"
  shows "minimize binary64 n (const_fun c) (interval 1 (1 + 1 / 2 ^ k)) y threshold s = None"
proof (rule minimize_chain_no_return [where K = 52, OF _ mid_binary64_ulp _ assms])
  show "mid binary64 (interval 1 (1 + 1 / 2 ^ k)) = 1 + 1 / 2 ^ Suc k" if "k < 52" for k
    using that by (intro mid_binary64_one_plus) simp
  show "width binary64 (interval 1 (1 + 1 / 2 ^ k)) = 1 / 2 ^ k" if "k \<le> 52" for k
    using that by (rule width_binary64_chain)
qed

lemma mid_binary64_neg_two_plus:
  assumes k: "k \<le> 51"
  shows "mid binary64 (interval (- 2) (- 2 + 1 / 2 ^ k)) = - 2 + 1 / 2 ^ Suc k"
proof -
  have "(- 2 + (- 2 + 1 / (2::real) ^ k)) / 2 = - 2 + 1 / 2 ^ Suc k" by (simp add: field_simps)
  then have "mid binary64 (interval (- 2) (- 2 + 1 / 2 ^ k)) = to_double (- 2 + 1 / 2 ^ Suc k)"
    by (simp only: binary64_def interval_ops.sel interval.sel)
  then show ?thesis by (simp only: to_double_neg_two_plus [OF k])
qed

lemma mid_binary64_neg_two_ulp: "mid binary64 (interval (- 2) (- 2 + 1 / 2 ^ 52)) = - 2"
proof -
  have "(- 2 + (- 2 + 1 / (2::real) ^ 52)) / 2 = - 2 + 1 / 2 ^ 53" by simp
  then show ?thesis
    using to_double_neg_two_half_ulp by (simp only: binary64_def interval_ops.sel interval.sel)
qed

lemma minimize_binary64_no_return_neg:
  assumes "threshold < 1 / 2 ^ 52" and "k \<le> 52" and "Fin c \<le> min_ub s"
  shows "minimize binary64 n (const_fun c) (interval (- 2) (- 2 + 1 / 2 ^ k)) y threshold s = None"
proof (rule minimize_chain_no_return [where K = 52, OF _ mid_binary64_neg_two_ulp _ assms])
  show "mid binary64 (interval (- 2) (- 2 + 1 / 2 ^ k)) = - 2 + 1 / 2 ^ Suc k" if "k < 52" for k
    using that by (intro mid_binary64_neg_two_plus) simp
  show "width binary64 (interval (- 2) (- 2 + 1 / 2 ^ k)) = 1 / 2 ^ k" if "k \<le> 52" for k
    using that by (rule width_binary64_chain)
qed

lemma minimize_binary64_no_return_box:
  assumes t: "threshold < 1 / 2 ^ 52" and s: "Fin c \<le> min_ub s"
  shows "minimize binary64 n (const_fun c) (interval (- 2) 2) y threshold s = None"
proof -
  have t1: "threshold < 1"
    using t by (rule less_le_trans) simp
  have a: "minimize binary64 n (const_fun c) (interval (- 2) (- 1)) y threshold s = None"
    if "Fin c \<le> min_ub s" for n y and s :: search_state
    using minimize_binary64_no_return_neg [OF t _ that, of 0 n y] by simp
  have m0: "mid binary64 (interval (- 2) 0) = - 1" and w0: "width binary64 (interval (- 2) 0) = 2"
    by (simp_all add: binary64_def to_double_neg_one to_double_two)
  have b: "minimize binary64 n (const_fun c) (interval (- 2) 0) y threshold s = None"
    if "Fin c \<le> min_ub s" for n y and s :: search_state
  proof (rule minimize_descend [OF _ _ that])
    show "\<not> width binary64 (interval (- 2) 0) \<le> threshold" using t1 by (simp add: w0)
    show "minimize binary64 n (const_fun c)
        (interval (left (interval (- 2) 0)) (mid binary64 (interval (- 2) 0))) y threshold s = None"
      if "Fin c \<le> min_ub s" for n y and s :: search_state
      unfolding m0 interval.sel by (rule a [OF that])
  qed
  have m1: "mid binary64 (interval (- 2) 2) = 0" and w1: "width binary64 (interval (- 2) 2) = 4"
    by (simp_all add: binary64_def to_double_0 to_double_four)
  show ?thesis
  proof (rule minimize_descend [OF _ _ s])
    show "\<not> width binary64 (interval (- 2) 2) \<le> threshold" using t1 by (simp add: w1)
    show "minimize binary64 n (const_fun c)
        (interval (left (interval (- 2) 2)) (mid binary64 (interval (- 2) 2))) y threshold s = None"
      if "Fin c \<le> min_ub s" for n y and s :: search_state
      unfolding m1 interval.sel by (rule b [OF that])
  qed
qed

lemma claimed_depth_box: "nat \<lceil>log 2 (4 / (1 / 10 ^ 17))\<rceil> = 59"
proof -
  have "\<lceil>log 2 (4 / (1 / 10 ^ 17))\<rceil> = 59"
  proof (rule ceiling_unique)
    show "of_int 59 - 1 < log 2 (4 / (1 / 10 ^ 17))"
      by (simp add: less_log_iff)
    show "log 2 (4 / (1 / 10 ^ 17)) \<le> of_int 59"
      by (simp add: log_le_iff)
  qed
  then show ?thesis by simp
qed

lemma not_halves_width_binary64: "\<not> halves_width binary64"
proof
  let ?x = "interval 1 (1 + 1 / 2 ^ 52)"
  have w: "width binary64 ?x = 1 / 2 ^ 52"
    by (rule width_binary64_chain) simp
  assume "halves_width binary64"
  then have "width binary64 (interval (mid binary64 ?x) (right ?x)) = width binary64 ?x / 2"
    unfolding halves_width_def by blast
  then have "width binary64 ?x = width binary64 ?x / 2"
    by (simp only: mid_binary64_ulp interval.sel)
  then show False
    unfolding w by simp
qed

text \<open>
  C7. The claim: for every finite initial box and every strictly positive threshold the
  search terminates, with its recursion no deeper than
  \<open>ceil (log2 (initial x-width / threshold))\<close>. The source with the midpoint and the width
  rounded to a \<open>double\<close>, on the constant objective 0: from the box
  \<open>[-2, 2] x [-2, 2]\<close> with the threshold \<open>1e-17\<close>, where the claimed depth is 59, the
  search returns under no limit on the recursion, the limit 59 included; nor does it from
  the box of \<open>[1, 1 + 1 / 2 ^ 52]\<close> with the threshold \<open>1 / 2 ^ 53\<close>, which
  \<open>split_box\<close> splits into \<open>[1, 1]\<close> and the interval itself, of the width
  \<open>1 / 2 ^ 52\<close> above the threshold.
\<close>

theorem minimize_binary64_never_returns:
  "(\<forall>n. minimize binary64 n (const_fun 0) (interval (- 2) 2) (interval (- 2) 2) (1 / 10 ^ 17)
        initial_state = None)
   \<and> width binary64 (interval (- 2) 2) = 4
   \<and> nat \<lceil>log 2 (width binary64 (interval (- 2) 2) / (1 / 10 ^ 17))\<rceil> = 59
   \<and> (\<forall>n. minimize binary64 n (const_fun 0) (interval 1 (1 + 1 / 2 ^ 52))
        (interval 1 (1 + 1 / 2 ^ 52)) (1 / 2 ^ 53) initial_state = None)
   \<and> split_box binary64 (interval 1 (1 + 1 / 2 ^ 52)) (interval 1 (1 + 1 / 2 ^ 52))
       = (interval 1 1, interval 1 (1 + 1 / 2 ^ 52), interval 1 1, interval 1 (1 + 1 / 2 ^ 52))
   \<and> width binary64 (interval 1 (1 + 1 / 2 ^ 52)) = 1 / 2 ^ 52"
proof -
  have i: "Fin 0 \<le> min_ub initial_state" by (simp add: initial_state_def)
  have t: "(1::real) / 10 ^ 17 < 1 / 2 ^ 52" "(1::real) / 2 ^ 53 < 1 / 2 ^ 52" by simp_all
  have a: "\<forall>n. minimize binary64 n (const_fun 0) (interval (- 2) 2) (interval (- 2) 2)
      (1 / 10 ^ 17) initial_state = None"
    using minimize_binary64_no_return_box [OF t(1) i] by blast
  have w: "width binary64 (interval (- 2) 2) = 4"
    by (simp add: binary64_def to_double_four)
  have d: "nat \<lceil>log 2 (width binary64 (interval (- 2) 2) / (1 / 10 ^ 17))\<rceil> = 59"
    unfolding w by (rule claimed_depth_box)
  have b: "\<forall>n. minimize binary64 n (const_fun 0) (interval 1 (1 + 1 / 2 ^ 52))
      (interval 1 (1 + 1 / 2 ^ 52)) (1 / 2 ^ 53) initial_state = None"
    using minimize_binary64_no_return [OF t(2) order_refl i] by blast
  have s: "split_box binary64 (interval 1 (1 + 1 / 2 ^ 52)) (interval 1 (1 + 1 / 2 ^ 52))
       = (interval 1 1, interval 1 (1 + 1 / 2 ^ 52), interval 1 1, interval 1 (1 + 1 / 2 ^ 52))"
    unfolding split_box_def Let_def mid_binary64_ulp by simp
  have v: "width binary64 (interval 1 (1 + 1 / 2 ^ 52)) = 1 / 2 ^ 52"
    by (rule width_binary64_chain) simp
  from a w d b s v show ?thesis by (intro conjI)
qed

section \<open>The distributed run in the source\<close>

lemma main_rank_other:
  "rank \<noteq> 0 \<Longrightarrow> main_rank ops n rank f x0 y0 precision = Some (Returned initial_state)"
  by (simp add: main_rank_def)

text \<open>
  C1. The claim: in a run with four workers, every rank selects its quadrant of the first
  split and runs the sequential search on that whole quadrant, from the bound \<open>+oo\<close> and
  an empty Candidate Set. The source at the spec's first scenario, the objective
  \<open>x\<^sup>2 + y\<^sup>2\<close> over \<open>[-2, 2] x [-2, 2]\<close> with the precision \<open>1/2\<close>: the
  processes of rank 1, 2 and 3 keep the initial state, for their branch of \<open>main\<close> holds a
  comment for the call of \<open>minimize\<close> and no call, while the sequential search of the
  quadrant of rank 1 ends with the bound \<open>1/2\<close> and three Candidates. The process of
  rank 0 runs \<open>minimize\<close> with \<open>use_mpi = true\<close> on its quadrant, which splits the
  quadrant once more and searches the first of the four parts only: it reaches the
  reduction with the local bound \<open>9/2\<close> and three Candidates inside
  \<open>[-2, -1] x [-2, -1]\<close>, where the sequential search of its whole quadrant ends with the
  bound \<open>1/2\<close> and three Candidates next to the origin.
\<close>

theorem workers_do_not_search:
  "main_rank exact 3 1 sphere (interval (- 2) 2) (interval (- 2) 2) (1 / 2) = Some (Returned initial_state)
   \<and> main_rank exact 3 2 sphere (interval (- 2) 2) (interval (- 2) 2) (1 / 2) = Some (Returned initial_state)
   \<and> main_rank exact 3 3 sphere (interval (- 2) 2) (interval (- 2) 2) (1 / 2) = Some (Returned initial_state)
   \<and> carre exact (interval (- 2) 2) (interval (- 2) 2) ! 1 = (interval (- 2) 0, interval 0 2)
   \<and> minimize exact 3 sphere (interval (- 2) 0) (interval 0 2) (1 / 2) initial_state
       = Some \<lparr>min_ub = Fin (1 / 2),
           ml = [minimizer (interval (- (1 / 2)) 0) (interval 0 (1 / 2)) 0 (1 / 2),
                 minimizer (interval (- 1) (- (1 / 2))) (interval 0 (1 / 2)) (1 / 4) (5 / 4),
                 minimizer (interval (- (1 / 2)) 0) (interval (1 / 2) 1) (1 / 4) (5 / 4)]\<rparr>
   \<and> carre exact (interval (- 2) 2) (interval (- 2) 2) ! 0 = (interval (- 2) 0, interval (- 2) 0)
   \<and> main_rank exact 3 0 sphere (interval (- 2) 2) (interval (- 2) 2) (1 / 2)
       = Some (AtReduce (Fin (9 / 2))
           \<lparr>min_ub = Fin 8,
              ml = [minimizer (interval (- (3 / 2)) (- 1)) (interval (- (3 / 2)) (- 1)) 2 (9 / 2),
                    minimizer (interval (- 2) (- (3 / 2))) (interval (- (3 / 2)) (- 1))
                      (13 / 4) (25 / 4),
                    minimizer (interval (- (3 / 2)) (- 1)) (interval (- 2) (- (3 / 2)))
                      (13 / 4) (25 / 4)]\<rparr>)
   \<and> minimize exact 3 sphere (interval (- 2) 0) (interval (- 2) 0) (1 / 2) initial_state
       = Some \<lparr>min_ub = Fin (1 / 2),
           ml = [minimizer (interval (- (1 / 2)) 0) (interval (- (1 / 2)) 0) 0 (1 / 2),
                 minimizer (interval (- 1) (- (1 / 2))) (interval (- (1 / 2)) 0) (1 / 4) (5 / 4),
                 minimizer (interval (- (1 / 2)) 0) (interval (- 1) (- (1 / 2))) (1 / 4) (5 / 4)]\<rparr>"
  by code_simp

text \<open>
  Whatever the input, the reduction of the source does not complete with a bound, since
  the processes of rank 1, 2 and 3 never take part in it.
\<close>

lemma distributed_run_never_reduces:
  "distributed_run ops n f x0 y0 precision \<noteq> Some (Reduced u)"
  by (auto simp: distributed_run_def main_rank_other MPI_Reduce_MIN_def bind_eq_Some_conv
      split: option.splits)

text \<open>
  C9. The claim: the bound that the run with four workers produces, the minimum of the
  four local bounds as the reduction of the coordinator computes it, is at most the bound
  of one sequential search of the whole box. The source at the input of C1: the process of
  rank 0 alone reaches \<open>MPI_Reduce\<close>, with the local bound \<open>9/2\<close>; the processes of
  rank 1, 2 and 3 contribute nothing, so the reduction never completes and the run
  produces no bound, where the sequential search of the whole box ends with the bound
  \<open>1/2\<close>.
\<close>

theorem distributed_run_no_bound:
  "distributed_run exact 3 sphere (interval (- 2) 2) (interval (- 2) 2) (1 / 2) = Some Never
   \<and> map (\<lambda>rank. Option.bind
          (main_rank exact 3 rank sphere (interval (- 2) 2) (interval (- 2) 2) (1 / 2)) contribution)
        [0, 1, 2, 3]
       = [Some (Fin (9 / 2)), None, None, None]
   \<and> sequential_ub exact 3 sphere (interval (- 2) 2) (interval (- 2) 2) (1 / 2) = Some (Fin (1 / 2))"
  by code_simp

section \<open>The distributed run of the spec\<close>

text \<open>
  With four workers that each search their whole quadrant, the minimum of their bounds is
  at most the bound of the sequential search, for every objective that is monotone under
  box inclusion and midpoints that lie between the ends of a valid interval. Two runs over
  the same box are compared: the one that starts from the smaller bound ends with the
  smaller bound, and ends no lower than what the other run reaches, unless it started
  lower.
\<close>

lemma mono_left:
  assumes "inclusion_monotone f" "valid x'" "valid y'" "sub_interval x' x" "sub_interval y' y"
  shows "Fin (left (f x y)) \<le> Fin (left (f x' y'))"
  using assms by (simp add: inclusion_monotone_def)

lemma mono_right:
  assumes "inclusion_monotone f" "valid x'" "valid y'" "sub_interval x' x" "sub_interval y' y"
  shows "Fin (right (f x' y')) \<le> Fin (right (f x y))"
  using assms by (simp add: inclusion_monotone_def)

lemma bound_step:
  fixes m :: ext
  shows "m \<le> u \<Longrightarrow> m \<le> l \<Longrightarrow> min u l \<le> u' \<Longrightarrow> m \<le> u'"
  by (auto simp: min_le_iff_disj)

lemma minimize_lower:
  assumes f: "inclusion_monotone f" "valid_fun f" and mi: "mid_inside ops"
  shows "valid x \<Longrightarrow> valid y \<Longrightarrow> minimize ops n f x y threshold s = Some s' \<Longrightarrow>
    min (min_ub s) (Fin (left (f x y))) \<le> min_ub s'"
proof (induction n arbitrary: x y s s')
  case 0
  have v: "Fin (left (f x y)) \<le> Fin (right (f x y))"
    using f(2) "0.prems"(1,2) by (simp add: valid_fun_def valid_def)
  show ?case
  proof (cases "min_ub s < Fin (left (f x y))")
    case True
    with 0 show ?thesis by (simp add: minimize_pruned)
  next
    case np: False
    show ?thesis
    proof (cases "width ops x \<le> threshold")
      case True
      with np 0 v show ?thesis
        by (auto simp: minimize_leaf tighten_min_ub min_le_iff_disj)
    next
      case False
      with np 0 show ?thesis by (simp add: minimize_split_0)
    qed
  qed
next
  case (Suc k)
  let ?m = "min (min_ub s) (Fin (left (f x y)))"
  have v: "Fin (left (f x y)) \<le> Fin (right (f x y))"
    using f(2) Suc.prems(1,2) by (simp add: valid_fun_def valid_def)
  have t: "?m \<le> min_ub (tighten (f x y) s)"
    using v by (auto simp: tighten_min_ub min_le_iff_disj)
  show ?case
  proof (cases "min_ub s < Fin (left (f x y))")
    case True
    with Suc.prems show ?thesis by (simp add: minimize_pruned)
  next
    case np: False
    show ?thesis
    proof (cases "width ops x \<le> threshold")
      case True
      with np Suc.prems t show ?thesis by (auto simp: minimize_leaf)
    next
      case False
      note h = halves_valid [OF mi Suc.prems(1)] halves_valid [OF mi Suc.prems(2)]
      from Suc.prems(3) np False obtain s2 s3 s4 where
        e1: "minimize ops k f (interval (left x) (mid ops x)) (interval (left y) (mid ops y)) threshold
               (tighten (f x y) s) = Some s2"
        and e2: "minimize ops k f (interval (left x) (mid ops x)) (interval (mid ops y) (right y)) threshold s2 = Some s3"
        and e3: "minimize ops k f (interval (mid ops x) (right x)) (interval (left y) (mid ops y)) threshold s3 = Some s4"
        and e4: "minimize ops k f (interval (mid ops x) (right x)) (interval (mid ops y) (right y)) threshold s4 = Some s'"
        by (rule minimize_split_cases)
      have q: "?m \<le> Fin (left (f x' y'))"
        if "valid x'" "valid y'" "sub_interval x' x" "sub_interval y' y" for x' y'
        by (rule order_trans [OF min.cobounded2 mono_left [OF f(1) that]])
      have "?m \<le> min_ub s2"
        by (rule bound_step [OF t q [OF h(1) h(5) h(3) h(7)] Suc.IH [OF h(1) h(5) e1]])
      then have "?m \<le> min_ub s3"
        by (rule bound_step [OF _ q [OF h(1) h(6) h(3) h(8)] Suc.IH [OF h(1) h(6) e2]])
      then have "?m \<le> min_ub s4"
        by (rule bound_step [OF _ q [OF h(2) h(5) h(4) h(7)] Suc.IH [OF h(2) h(5) e3]])
      then show "?m \<le> min_ub s'"
        by (rule bound_step [OF _ q [OF h(2) h(6) h(4) h(8)] Suc.IH [OF h(2) h(6) e4]])
    qed
  qed
qed

lemma minimize_below_right:
  assumes "minimize ops n f x y threshold s = Some s'" "\<not> min_ub s < Fin (left (f x y))"
  shows "min_ub s' \<le> Fin (right (f x y))"
proof -
  have t: "min_ub (tighten (f x y) s) \<le> Fin (right (f x y))"
    by (simp add: tighten_min_ub)
  show ?thesis
  proof (cases "width ops x \<le> threshold")
    case True
    with assms t show ?thesis by (auto simp: minimize_leaf)
  next
    case False
    show ?thesis
    proof (cases n)
      case 0
      with assms False show ?thesis by (simp add: minimize_split_0)
    next
      case (Suc k)
      from assms(1) [unfolded Suc] assms(2) False obtain s2 s3 s4 where
        e1: "minimize ops k f (interval (left x) (mid ops x)) (interval (left y) (mid ops y)) threshold
               (tighten (f x y) s) = Some s2"
        and e2: "minimize ops k f (interval (left x) (mid ops x)) (interval (mid ops y) (right y)) threshold s2 = Some s3"
        and e3: "minimize ops k f (interval (mid ops x) (right x)) (interval (left y) (mid ops y)) threshold s3 = Some s4"
        and e4: "minimize ops k f (interval (mid ops x) (right x)) (interval (mid ops y) (right y)) threshold s4 = Some s'"
        by (rule minimize_split_cases)
      from minimize_le [OF e1] minimize_le [OF e2] minimize_le [OF e3] minimize_le [OF e4] t
      show ?thesis by order
    qed
  qed
qed

lemma minimize_compare:
  assumes f: "inclusion_monotone f" "valid_fun f" and mi: "mid_inside ops"
  shows "valid x \<Longrightarrow> valid y \<Longrightarrow> minimize ops n f x y threshold a = Some a' \<Longrightarrow>
    minimize ops n f x y threshold b = Some b' \<Longrightarrow> min_ub a \<le> min_ub b \<Longrightarrow>
    min_ub a' \<le> min_ub b' \<and> min (min_ub a) (min_ub b') \<le> min_ub a'"
proof (induction n arbitrary: x y a b a' b')
  case 0
  show ?case
  proof (cases "min_ub a < Fin (left (f x y))")
    case pa: True
    then have a': "a' = a" using "0.prems"(3) by (simp add: minimize_pruned)
    from minimize_lower [OF f mi "0.prems"(1,2,4)] pa "0.prems"(5)
    have "min_ub a \<le> min_ub b'" by (auto simp: min_le_iff_disj min.bounded_iff)
    then show ?thesis by (simp add: a')
  next
    case npa: False
    with "0.prems"(5) have npb: "\<not> min_ub b < Fin (left (f x y))" by order
    show ?thesis
    proof (cases "width ops x \<le> threshold")
      case True
      with npa npb "0.prems" show ?thesis
        by (auto simp: minimize_leaf tighten_min_ub min_le_iff_disj min.bounded_iff)
    next
      case False
      with npa "0.prems" show ?thesis by (simp add: minimize_split_0)
    qed
  qed
next
  case (Suc k)
  show ?case
  proof (cases "min_ub a < Fin (left (f x y))")
    case pa: True
    then have a': "a' = a" using Suc.prems(3) by (simp add: minimize_pruned)
    from minimize_lower [OF f mi Suc.prems(1,2,4)] pa Suc.prems(5)
    have "min_ub a \<le> min_ub b'" by (auto simp: min_le_iff_disj min.bounded_iff)
    then show ?thesis by (simp add: a')
  next
    case npa: False
    with Suc.prems(5) have npb: "\<not> min_ub b < Fin (left (f x y))" by order
    show ?thesis
    proof (cases "width ops x \<le> threshold")
      case True
      with npa npb Suc.prems show ?thesis
        by (auto simp: minimize_leaf tighten_min_ub min_le_iff_disj min.bounded_iff)
    next
      case False
      note h = halves_valid [OF mi Suc.prems(1)] halves_valid [OF mi Suc.prems(2)]
      from Suc.prems(3) npa False obtain a2 a3 a4 where
        a1: "minimize ops k f (interval (left x) (mid ops x)) (interval (left y) (mid ops y)) threshold
               (tighten (f x y) a) = Some a2"
        and a2: "minimize ops k f (interval (left x) (mid ops x)) (interval (mid ops y) (right y)) threshold a2 = Some a3"
        and a3: "minimize ops k f (interval (mid ops x) (right x)) (interval (left y) (mid ops y)) threshold a3 = Some a4"
        and a4: "minimize ops k f (interval (mid ops x) (right x)) (interval (mid ops y) (right y)) threshold a4 = Some a'"
        by (rule minimize_split_cases)
      from Suc.prems(4) npb False obtain b2 b3 b4 where
        b1: "minimize ops k f (interval (left x) (mid ops x)) (interval (left y) (mid ops y)) threshold
               (tighten (f x y) b) = Some b2"
        and b2: "minimize ops k f (interval (left x) (mid ops x)) (interval (mid ops y) (right y)) threshold b2 = Some b3"
        and b3: "minimize ops k f (interval (mid ops x) (right x)) (interval (left y) (mid ops y)) threshold b3 = Some b4"
        and b4: "minimize ops k f (interval (mid ops x) (right x)) (interval (mid ops y) (right y)) threshold b4 = Some b'"
        by (rule minimize_split_cases)
      let ?a1 = "tighten (f x y) a" and ?b1 = "tighten (f x y) b"
      have t0: "min_ub ?a1 \<le> min_ub ?b1"
        using Suc.prems(5) by (auto simp: tighten_min_ub min_le_iff_disj min.bounded_iff)
      have m0: "min (min_ub a) (min_ub ?b1) \<le> min_ub ?a1"
        by (auto simp: tighten_min_ub min_le_iff_disj min.bounded_iff)
      note c1 = Suc.IH [OF h(1) h(5) a1 b1 t0]
      note c2 = Suc.IH [OF h(1) h(6) a2 b2 c1 [THEN conjunct1]]
      note c3 = Suc.IH [OF h(2) h(5) a3 b3 c2 [THEN conjunct1]]
      note c4 = Suc.IH [OF h(2) h(6) a4 b4 c3 [THEN conjunct1]]
      note d = minimize_le [OF b1] minimize_le [OF b2] minimize_le [OF b3] minimize_le [OF b4]
      have "min (min_ub a) (min_ub b') \<le> min_ub ?a1"
        using m0 d by (auto simp: min_le_iff_disj min.bounded_iff)
      then have "min (min_ub a) (min_ub b') \<le> min_ub a2"
        using c1 d by (auto simp: min_le_iff_disj min.bounded_iff)
      then have "min (min_ub a) (min_ub b') \<le> min_ub a3"
        using c2 d by (auto simp: min_le_iff_disj min.bounded_iff)
      then have "min (min_ub a) (min_ub b') \<le> min_ub a4"
        using c3 d by (auto simp: min_le_iff_disj min.bounded_iff)
      then have "min (min_ub a) (min_ub b') \<le> min_ub a'"
        using c4 d by (auto simp: min_le_iff_disj min.bounded_iff)
      with c4 show ?thesis by blast
    qed
  qed
qed

lemma initial_not_pruned: "\<not> min_ub initial_state < Fin l"
  by (simp add: initial_state_def)

lemma design_bound_not_worse:
  assumes f: "inclusion_monotone f" "valid_fun f" and mi: "mid_inside ops"
    and v: "valid x0" "valid y0"
    and seq: "sequential_ub ops n f x0 y0 precision = Some u"
    and dis: "distributed_ub_design ops n f x0 y0 precision = Some d"
  shows "d \<le> u"
proof -
  note h = halves_valid [OF mi v(1)] halves_valid [OF mi v(2)]
  let ?xl = "interval (left x0) (mid ops x0)" and ?xr = "interval (mid ops x0) (right x0)"
  let ?yl = "interval (left y0) (mid ops y0)" and ?yr = "interval (mid ops y0) (right y0)"
  from seq obtain s' where
    s': "minimize ops n f x0 y0 precision initial_state = Some s'" and u: "u = min_ub s'"
    by (auto simp: sequential_ub_def)
  from dis obtain r0 r1 r2 r3 where
    r0: "minimize ops n f ?xl ?yl precision initial_state = Some r0"
    and r1: "minimize ops n f ?xl ?yr precision initial_state = Some r1"
    and r2: "minimize ops n f ?xr ?yl precision initial_state = Some r2"
    and r3: "minimize ops n f ?xr ?yr precision initial_state = Some r3"
    and d: "d = min (min (min_ub r0) (min_ub r1)) (min (min_ub r2) (min_ub r3))"
    by (auto simp: distributed_ub_design_def split_box_def Let_def bind_eq_Some_conv)
  have d0: "d \<le> min_ub r0" and d1: "d \<le> min_ub r1"
    and d2: "d \<le> min_ub r2" and d3: "d \<le> min_ub r3"
    by (simp_all add: d min_le_iff_disj)
  have "min_ub r0 \<le> Fin (right (f ?xl ?yl))"
    by (rule minimize_below_right [where f = f, OF r0 initial_not_pruned])
  also have "\<dots> \<le> Fin (right (f x0 y0))"
    by (rule mono_right [OF f(1) h(1) h(5) h(3) h(7)])
  finally have top: "d \<le> Fin (right (f x0 y0))" using d0 by (rule order_trans [rotated])
  have t: "min_ub (tighten (f x0 y0) initial_state) = Fin (right (f x0 y0))"
    by (simp add: tighten_min_ub initial_state_def)
  have np: "\<not> min_ub initial_state < Fin (left (f x0 y0))" by (rule initial_not_pruned)
  have inf: "b \<le> min_ub initial_state" for b
    by (cases b) (simp_all add: initial_state_def)
  show ?thesis
  proof (cases "width ops x0 \<le> precision")
    case True
    with s' np t top show ?thesis by (auto simp: u minimize_leaf)
  next
    case False
    show ?thesis
    proof (cases n)
      case 0
      with s' np False show ?thesis by (simp add: minimize_split_0)
    next
      case (Suc k)
      from s' [unfolded Suc] np False obtain s2 s3 s4 where
        e1: "minimize ops k f ?xl ?yl precision (tighten (f x0 y0) initial_state) = Some s2"
        and e2: "minimize ops k f ?xl ?yr precision s2 = Some s3"
        and e3: "minimize ops k f ?xr ?yl precision s3 = Some s4"
        and e4: "minimize ops k f ?xr ?yr precision s4 = Some s'"
        by (rule minimize_split_cases)
      note g1 = minimize_Suc_limit [OF e1, folded Suc]
      note g2 = minimize_Suc_limit [OF e2, folded Suc]
      note g3 = minimize_Suc_limit [OF e3, folded Suc]
      note g4 = minimize_Suc_limit [OF e4, folded Suc]
      note c1 = minimize_compare [OF f mi h(1) h(5) g1 r0 inf, THEN conjunct2]
      note c2 = minimize_compare [OF f mi h(1) h(6) g2 r1 inf, THEN conjunct2]
      note c3 = minimize_compare [OF f mi h(2) h(5) g3 r2 inf, THEN conjunct2]
      note c4 = minimize_compare [OF f mi h(2) h(6) g4 r3 inf, THEN conjunct2]
      have "d \<le> min_ub (tighten (f x0 y0) initial_state)" using top by (simp add: t)
      then have "d \<le> min_ub s2" using d0 c1 by (rule bound_step)
      then have "d \<le> min_ub s3" using d1 c2 by (rule bound_step)
      then have "d \<le> min_ub s4" using d2 c3 by (rule bound_step)
      then have "d \<le> min_ub s'" using d3 c4 by (rule bound_step)
      then show ?thesis by (simp add: u)
    qed
  qed
qed

text \<open>
  The objective of the scenario is such an objective, and there the four workers of the
  spec reach the bound of the sequential search.
\<close>

lemma sq_le: "0 \<le> a \<Longrightarrow> a \<le> b \<Longrightarrow> a\<^sup>2 \<le> (b::real)\<^sup>2"
  by (rule power_mono)

lemma sq_le_neg: "b \<le> 0 \<Longrightarrow> a \<le> b \<Longrightarrow> b\<^sup>2 \<le> (a::real)\<^sup>2"
  using power_mono [of "- b" "- a" 2] by simp

lemma sqr_valid: "valid i \<Longrightarrow> valid (sqr i)"
  by (auto simp: valid_def sqr_def sq_le sq_le_neg le_max_iff_disj)

lemma sqr_mono:
  assumes "valid i'" "sub_interval i' i"
  shows "left (sqr i) \<le> left (sqr i') \<and> right (sqr i') \<le> right (sqr i)"
proof -
  from assms have o: "left i \<le> left i'" "left i' \<le> right i'" "right i' \<le> right i"
    by (simp_all add: valid_def sub_interval_def)
  show ?thesis
  proof (cases "0 \<le> left i")
    case True
    with o show ?thesis by (simp add: sqr_def sq_le)
  next
    case ln: False
    show ?thesis
    proof (cases "right i \<le> 0")
      case True
      with o ln show ?thesis by (simp add: sqr_def sq_le_neg)
    next
      case rp: False
      have r: "(right i')\<^sup>2 \<le> max ((left i)\<^sup>2) ((right i)\<^sup>2)"
      proof (cases "0 \<le> right i'")
        case True
        with o have "(right i')\<^sup>2 \<le> (right i)\<^sup>2" by (simp add: sq_le)
        then show ?thesis by simp
      next
        case False
        with o have "(right i')\<^sup>2 \<le> (left i)\<^sup>2"
          by (intro order_trans [OF sq_le_neg [of "right i'" "left i'"] sq_le_neg]) simp_all
        then show ?thesis by simp
      qed
      have l: "(left i')\<^sup>2 \<le> max ((left i)\<^sup>2) ((right i)\<^sup>2)"
      proof (cases "0 \<le> left i'")
        case True
        with o have "(left i')\<^sup>2 \<le> (right i)\<^sup>2"
          by (intro order_trans [OF sq_le [of "left i'" "right i'"] sq_le]) simp_all
        then show ?thesis by simp
      next
        case False
        with o have "(left i')\<^sup>2 \<le> (left i)\<^sup>2" by (simp add: sq_le_neg)
        then show ?thesis by simp
      qed
      from ln rp l r show ?thesis by (simp add: sqr_def)
    qed
  qed
qed

lemma valid_fun_sphere: "valid_fun sphere"
  unfolding valid_fun_def
proof (intro allI impI)
  fix x y
  assume "valid x \<and> valid y"
  then have "valid (sqr x)" "valid (sqr y)" by (simp_all add: sqr_valid)
  then show "valid (sphere x y)" by (simp add: valid_def sphere_def)
qed

lemma inclusion_monotone_sphere: "inclusion_monotone sphere"
  unfolding inclusion_monotone_def
proof (intro allI impI)
  fix x y x' y'
  assume a: "valid x' \<and> valid y' \<and> sub_interval x' x \<and> sub_interval y' y"
  then have "left (sqr x) \<le> left (sqr x') \<and> right (sqr x') \<le> right (sqr x)"
    and "left (sqr y) \<le> left (sqr y') \<and> right (sqr y') \<le> right (sqr y)"
    by (simp_all add: sqr_mono)
  then show "left (sphere x y) \<le> left (sphere x' y') \<and> right (sphere x' y') \<le> right (sphere x y)"
    by (simp add: sphere_def)
qed

lemma design_bound_example:
  "inclusion_monotone sphere \<and> valid_fun sphere
   \<and> sequential_ub exact 3 sphere (interval (- 2) 2) (interval (- 2) 2) (1 / 2) = Some (Fin (1 / 2))
   \<and> distributed_ub_design exact 3 sphere (interval (- 2) 2) (interval (- 2) 2) (1 / 2)
       = Some (Fin (1 / 2))"
proof -
  have s: "sequential_ub exact 3 sphere (interval (- 2) 2) (interval (- 2) 2) (1 / 2) = Some (Fin (1 / 2))"
    by code_simp
  have d: "distributed_ub_design exact 3 sphere (interval (- 2) 2) (interval (- 2) 2) (1 / 2)
       = Some (Fin (1 / 2))"
    by code_simp
  from inclusion_monotone_sphere valid_fun_sphere s d show ?thesis by blast
qed

end
